theory Spec2Isabelle
  imports Main
begin

section \<open>Text and the Python runtime\<close>

text \<open>
  A Python \<open>str\<close> is a sequence of Unicode code points. A code point is a natural
  number and a string is a list of them, so that \<open>length\<close> counts what Python's
  \<open>len\<close> counts. \<open>asc\<close> reads a Basic Latin literal as code points.
\<close>

type_synonym cp = nat
type_synonym ustr = "cp list"

definition asc :: "string \<Rightarrow> ustr" where
  "asc s = map of_char s"

text \<open>
  What \<open>json.loads\<close> returns: \<open>None\<close>, a \<open>bool\<close>, an \<open>int\<close>, a \<open>float\<close> (by mantissa
  and exponent), a \<open>str\<close>, a \<open>list\<close> or a \<open>dict\<close> with string keys.
\<close>

datatype json =
    JNull
  | JBool bool
  | JInt int
  | JFloat int int
  | JStr ustr
  | JArr "json list"
  | JObj "(ustr \<times> json) list"

text \<open>
  The source calls into the interpreter and its library; none of that is code of the
  repository, so it is a parameter of the model:
  \<^item> \<open>decimal\<close>: the characters \<open>\d\<close> matches in a \<open>str\<close> pattern (Unicode
    category Nd);
  \<^item> \<open>whitespace\<close>: the characters \<open>str.strip()\<close> removes and \<open>\s\<close> matches;
  \<^item> \<open>caseless p c\<close>: the pattern literal \<open>p\<close> matches the subject character \<open>c\<close>
    under \<open>re.IGNORECASE\<close>;
  \<^item> \<open>loads\<close>: \<open>json.loads\<close>, \<open>None\<close> when it raises;
  \<^item> \<open>render\<close>: \<open>str(v)\<close> for a decoded JSON value \<open>v\<close> that is not a string.
\<close>

record runtime =
  decimal :: "cp \<Rightarrow> bool"
  whitespace :: "cp \<Rightarrow> bool"
  caseless :: "cp \<Rightarrow> cp \<Rightarrow> bool"
  loads :: "ustr \<Rightarrow> json option"
  render :: "json \<Rightarrow> ustr"

text \<open>\<open>str.strip()\<close> with no argument: leading and trailing whitespace removed.\<close>

definition strip :: "runtime \<Rightarrow> ustr \<Rightarrow> ustr" where
  "strip R s = rev (dropWhile (whitespace R) (rev (dropWhile (whitespace R) s)))"

section \<open>The regular expressions of \<open>extract_code\<close>\<close>

text \<open>
  The three patterns use single-character classes, bounded and unbounded greedy
  repetition of a class, sequence, alternation, an optional group, one capturing group
  and single-character negative lookbehind and lookahead. \<open>Lit\<close> is a literal
  character of a pattern compiled with \<open>re.IGNORECASE\<close>.
\<close>

datatype cclass = Digit | NonDigit | Space | DashOrSpace | Lit cp

fun in_class :: "runtime \<Rightarrow> cclass \<Rightarrow> cp \<Rightarrow> bool" where
  "in_class R Digit c = decimal R c"
| "in_class R NonDigit c = (\<not> decimal R c)"
| "in_class R Space c = whitespace R c"
| "in_class R DashOrSpace c = (c = 45 \<or> whitespace R c)"
| "in_class R (Lit p) c = caseless R p c"

datatype regex =
    Eps
  | Chr cclass
  | Rep cclass nat "nat option"
  | Seq regex regex
  | Alt regex regex
  | Opt regex
  | Group regex
  | NotBehind cclass
  | NotAhead cclass

text \<open>
  A matcher state is the current position in the subject and the span (start, end) of
  capturing group 1 when it has been set.
\<close>

type_synonym mstate = "nat \<times> (nat \<times> nat) option"

text \<open>
  How many characters a greedy repetition of a class can take from \<open>xs\<close>: the leading
  characters in the class, at most the upper bound.
\<close>

definition span_len :: "runtime \<Rightarrow> cclass \<Rightarrow> nat option \<Rightarrow> ustr \<Rightarrow> nat" where
  "span_len R c hi xs =
     (let n = length (takeWhile (in_class R c) xs)
      in case hi of None \<Rightarrow> n | Some h \<Rightarrow> min h n)"

text \<open>
  The backtracking matcher of \<open>re\<close>: \<open>rmatch R t r s\<close> lists the states in which
  \<open>r\<close> can end when started in state \<open>s\<close> on subject \<open>t\<close>, in the order the engine
  tries them (a greedy repetition longest first, an alternation left to right, an
  optional group taken before skipped).
\<close>

fun rmatch :: "runtime \<Rightarrow> ustr \<Rightarrow> regex \<Rightarrow> mstate \<Rightarrow> mstate list" where
  "rmatch R t Eps s = [s]"
| "rmatch R t (Chr c) (i, g) =
     (if i < length t \<and> in_class R c (t ! i) then [(Suc i, g)] else [])"
| "rmatch R t (Rep c lo hi) (i, g) =
     map (\<lambda>k. (i + k, g)) (rev [lo..<Suc (span_len R c hi (drop i t))])"
| "rmatch R t (Seq a b) s = concat (map (rmatch R t b) (rmatch R t a s))"
| "rmatch R t (Alt a b) s = rmatch R t a s @ rmatch R t b s"
| "rmatch R t (Opt a) s = rmatch R t a s @ [s]"
| "rmatch R t (Group a) (i, g) = map (\<lambda>(j, _). (j, Some (i, j))) (rmatch R t a (i, g))"
| "rmatch R t (NotBehind c) (i, g) =
     (if 0 < i \<and> i \<le> length t \<and> in_class R c (t ! (i - 1)) then [] else [(i, g)])"
| "rmatch R t (NotAhead c) (i, g) =
     (if i < length t \<and> in_class R c (t ! i) then [] else [(i, g)])"

text \<open>
  \<open>re.search\<close>: the start positions \<open>0 .. len(t)\<close> from the left, the first one where
  the pattern matches, and there the first way it matches.
\<close>

fun scan :: "runtime \<Rightarrow> regex \<Rightarrow> ustr \<Rightarrow> nat list \<Rightarrow> mstate option" where
  "scan R r t [] = None"
| "scan R r t (i # starts) =
     (case rmatch R t r (i, None) of [] \<Rightarrow> scan R r t starts | s # _ \<Rightarrow> Some s)"

definition re_search :: "runtime \<Rightarrow> regex \<Rightarrow> ustr \<Rightarrow> mstate option" where
  "re_search R r t = scan R r t [0..<Suc (length t)]"

text \<open>A literal word, and an alternation of several branches.\<close>

definition word :: "ustr \<Rightarrow> regex" where
  "word w = foldr (\<lambda>c r. Seq (Chr (Lit c)) r) w Eps"

definition alts :: "regex list \<Rightarrow> regex" where
  "alts rs = foldr Alt (butlast rs) (last rs)"

text \<open>
  The keyword group of the source, an alternation of twelve branches. The first six are
  Chinese words of three characters, given by their code points (U+9A8C U+8BC1 U+7801,
  U+6821 U+9A8C U+7801, U+52A8 U+6001 U+7801, U+77ED U+4FE1 U+7801, U+767B U+5F55
  U+7801, U+63D0 U+53D6 U+7801); the other six are
  \<^verbatim>\<open>otp|passcode|verification\s*code|security\s*code|one[-\s]*time\s*(?:password|passcode)?|code\<close>.
\<close>

definition keyword :: regex where
  "keyword = alts
     [word [0x9A8C, 0x8BC1, 0x7801],
      word [0x6821, 0x9A8C, 0x7801],
      word [0x52A8, 0x6001, 0x7801],
      word [0x77ED, 0x4FE1, 0x7801],
      word [0x767B, 0x5F55, 0x7801],
      word [0x63D0, 0x53D6, 0x7801],
      word (asc ''otp''),
      word (asc ''passcode''),
      Seq (word (asc ''verification'')) (Seq (Rep Space 0 None) (word (asc ''code''))),
      Seq (word (asc ''security'')) (Seq (Rep Space 0 None) (word (asc ''code''))),
      Seq (word (asc ''one'')) (Seq (Rep DashOrSpace 0 None) (Seq (word (asc ''time''))
        (Seq (Rep Space 0 None) (Opt (Alt (word (asc ''password'')) (word (asc ''passcode''))))))),
      word (asc ''code'')]"

text \<open>\<^verbatim>\<open>(?<!\d)(\d{4,8})(?!\d)\<close>\<close>

definition isolated_digits :: regex where
  "isolated_digits =
     Seq (NotBehind Digit) (Seq (Group (Rep Digit 4 (Some 8))) (NotAhead Digit))"

text \<open>\<^verbatim>\<open>{keyword}\D{0,20}(?<!\d)(\d{4,8})(?!\d)\<close>\<close>

definition keyword_then_digits :: regex where
  "keyword_then_digits = Seq keyword (Seq (Rep NonDigit 0 (Some 20)) isolated_digits)"

text \<open>\<^verbatim>\<open>(?<!\d)(\d{4,8})(?!\d)\D{0,20}{keyword}\<close>\<close>

definition digits_then_keyword :: regex where
  "digits_then_keyword = Seq isolated_digits (Seq (Rep NonDigit 0 (Some 20)) keyword)"

section \<open>\<open>extract_code\<close>\<close>

text \<open>
  The three searches of the source in their order: the first that matches decides.
  \<open>extract_code\<close> below is the function on a \<open>str\<close> argument, for which
  \<open>text or ""\<close> is the argument itself; the next section adds the other arguments.
\<close>

definition find_match :: "runtime \<Rightarrow> ustr \<Rightarrow> mstate option" where
  "find_match R t =
     (case re_search R keyword_then_digits t of
        Some s \<Rightarrow> Some s
      | None \<Rightarrow>
          (case re_search R digits_then_keyword t of
             Some s \<Rightarrow> Some s
           | None \<Rightarrow> re_search R isolated_digits t))"

text \<open>
  \<open>m.group(1)\<close>. Every pattern passes through its capturing group on every match, so
  the group is always set (lemma \<open>find_match_sound\<close> below); the other branch is
  never taken.
\<close>

definition group1 :: "ustr \<Rightarrow> mstate \<Rightarrow> ustr" where
  "group1 t s = (case snd s of Some (a, b) \<Rightarrow> take (b - a) (drop a t) | None \<Rightarrow> [])"

definition extract_code :: "runtime \<Rightarrow> ustr \<Rightarrow> ustr" where
  "extract_code R text0 =
     (let t = strip R text0
      in if t = [] then []
         else (case find_match R t of None \<Rightarrow> t | Some s \<Rightarrow> group1 t s))"

section \<open>\<open>extract_code\<close> called with any object\<close>

text \<open>
  Python does not check the annotation \<open>text: str\<close>. The first line of the function is
  \<open>text = (text or "").strip()\<close>: a falsy argument (\<open>None\<close>, \<open>""\<close>, \<open>0\<close>, an
  empty container) is replaced by \<open>""\<close>; on a truthy argument that is not a \<open>str\<close>
  the call of \<open>strip\<close>, or the search that follows, raises. An argument is \<open>None\<close>, a
  \<open>str\<close>, or another object of which only its truth value matters.
\<close>

datatype pyval = PNone | PStr ustr | POther bool

datatype pyerr = NotAString

fun truthy :: "pyval \<Rightarrow> bool" where
  "truthy PNone = False"
| "truthy (PStr s) = (s \<noteq> [])"
| "truthy (POther b) = b"

definition or_empty :: "pyval \<Rightarrow> pyval" where
  "or_empty v = (if truthy v then v else PStr [])"

definition extract_code_dyn :: "runtime \<Rightarrow> pyval \<Rightarrow> pyerr + ustr" where
  "extract_code_dyn R v =
     (case or_empty v of PStr s \<Rightarrow> Inr (extract_code R s) | _ \<Rightarrow> Inl NotAString)"

section \<open>The receive loop and the reconnect supervisor (\<open>ClientRunner.run\<close>)\<close>

text \<open>
  \<open>raw\<close> of the receive loop: \<open>json.loads(msg)\<close>, then \<open>str(data.get("text", ""))\<close>;
  any exception of the two (the frame is not JSON, or the decoded value is not a dict
  and has no \<open>get\<close>) gives \<open>str(msg)\<close>.
\<close>

definition py_str :: "runtime \<Rightarrow> json \<Rightarrow> ustr" where
  "py_str R v = (case v of JStr s \<Rightarrow> s | _ \<Rightarrow> render R v)"

definition frame_text :: "runtime \<Rightarrow> ustr \<Rightarrow> ustr" where
  "frame_text R msg =
     (case loads R msg of
        None \<Rightarrow> msg
      | Some data \<Rightarrow>
          (case data of
             JObj kvs \<Rightarrow> (case map_of kvs (asc ''text'') of None \<Rightarrow> [] | Some v \<Rightarrow> py_str R v)
           | _ \<Rightarrow> msg))"

datatype lifecycle = Idle | Connecting | Connected | Disconnected | Error | Stopped

text \<open>
  What the loop does to the outside, in order: a write of the status register, a call of
  \<open>websockets.connect\<close>, a call of \<open>pyperclip.copy\<close>, a call of
  \<open>stop_event.wait(retry)\<close>.
\<close>

datatype effect = SetStatus lifecycle | Connect | Copy ustr | Sleep int

text \<open>Where the coroutine is suspended.\<close>

datatype phase = NotStarted | AwaitConnect | Receiving | Sleeping | Finished

record runner =
  status :: lifecycle
  stop_event :: bool
  ws_open :: bool
  retry :: int
  phase :: phase
  trace :: "effect list"

text \<open>
  What the environment does: \<open>Start\<close> calls \<open>run()\<close>; \<open>Stop\<close> is
  \<open>stop_event.set()\<close> from another thread; \<open>ConnectOk\<close> and \<open>ConnectFail\<close> end the
  \<open>websockets.connect\<close> in flight; \<open>Frame msg ok\<close> delivers a message to
  \<open>async for\<close> (\<open>ok\<close>: \<open>pyperclip.copy\<close> would not raise); \<open>Close\<close> ends the
  iteration normally, \<open>Fault\<close> ends it with an exception; \<open>Wake\<close> is the return of
  \<open>stop_event.wait\<close>. An event the coroutine is not waiting for leaves the state as it is.
\<close>

datatype event = Start | Stop | ConnectOk | ConnectFail | Frame ustr bool | Close | Fault | Wake

definition initial :: runner where
  "initial = \<lparr>status = Idle, stop_event = False, ws_open = False, retry = 0,
     phase = NotStarted, trace = []\<rparr>"

definition set_status :: "runner \<Rightarrow> lifecycle \<Rightarrow> runner" where
  "set_status s st = s\<lparr>status := st, trace := trace s @ [SetStatus st]\<rparr>"

definition emit :: "runner \<Rightarrow> effect \<Rightarrow> runner" where
  "emit s e = s\<lparr>trace := trace s @ [e]\<rparr>"

text \<open>Leaving the \<open>while\<close> loop: \<open>self.set_status("stopped")\<close>, the last line of \<open>run\<close>.\<close>

definition finish :: "runner \<Rightarrow> runner" where
  "finish s = (set_status s Stopped)\<lparr>phase := Finished\<rparr>"

text \<open>The loop head: \<open>while not self.stop_event.is_set()\<close>, then the connection attempt.\<close>

definition loop_head :: "runner \<Rightarrow> runner" where
  "loop_head s =
     (if stop_event s then finish s
      else (emit (set_status s Connecting) Connect)\<lparr>phase := AwaitConnect\<rparr>)"

text \<open>
  The \<open>except Exception\<close> handler: \<open>break\<close> when the stop signal is set, else
  \<open>self.ws = None\<close>, status \<open>error\<close>, the sleep; the doubling of \<open>retry\<close> follows the
  sleep (event \<open>Wake\<close>).
\<close>

definition on_exception :: "runner \<Rightarrow> runner" where
  "on_exception s =
     (if stop_event s then finish s
      else (emit (set_status (s\<lparr>ws_open := False\<rparr>) Error) (Sleep (retry s)))
             \<lparr>phase := Sleeping\<rparr>)"

text \<open>
  After the \<open>async for\<close>, whether it ran out or was left by \<open>break\<close>:
  \<open>self.ws = None\<close>, \<open>break\<close> when the stop signal is set, else status
  \<open>disconnected\<close> and the sleep.
\<close>

definition on_loop_end :: "runner \<Rightarrow> runner" where
  "on_loop_end s =
     (if stop_event s then finish (s\<lparr>ws_open := False\<rparr>)
      else (emit (set_status (s\<lparr>ws_open := False\<rparr>) Disconnected) (Sleep (retry s)))
             \<lparr>phase := Sleeping\<rparr>)"

text \<open>
  The body of the \<open>async for\<close>. \<open>raw\<close> is always a \<open>str\<close>. An exception of
  \<open>extract_code\<close> or of \<open>pyperclip.copy\<close> is not caught in the body and reaches the
  handler of the outer \<open>try\<close>.
\<close>

definition on_frame :: "runtime \<Rightarrow> runner \<Rightarrow> ustr \<Rightarrow> bool \<Rightarrow> runner" where
  "on_frame R s msg ok =
     (if stop_event s then on_loop_end s
      else (case extract_code_dyn R (PStr (frame_text R msg)) of
              Inl err \<Rightarrow> on_exception s
            | Inr code \<Rightarrow>
                if code \<noteq> []
                then (if ok then emit s (Copy code) else on_exception s)
                else s))"

fun step :: "runtime \<Rightarrow> runner \<Rightarrow> event \<Rightarrow> runner" where
  "step R s Start = (if phase s = NotStarted then loop_head (s\<lparr>retry := 1\<rparr>) else s)"
| "step R s Stop = s\<lparr>stop_event := True\<rparr>"
| "step R s ConnectOk =
     (if phase s = AwaitConnect
      then (set_status (s\<lparr>ws_open := True\<rparr>) Connected)\<lparr>retry := 1, phase := Receiving\<rparr>
      else s)"
| "step R s ConnectFail = (if phase s = AwaitConnect then on_exception s else s)"
| "step R s (Frame msg ok) = (if phase s = Receiving then on_frame R s msg ok else s)"
| "step R s Close = (if phase s = Receiving then on_loop_end s else s)"
| "step R s Fault = (if phase s = Receiving then on_exception s else s)"
| "step R s Wake =
     (if phase s = Sleeping then loop_head (s\<lparr>retry := min (retry s * 2) 30\<rparr>) else s)"

definition run :: "runtime \<Rightarrow> event list \<Rightarrow> runner" where
  "run R es = foldl (step R) initial es"

definition attempts :: "runner \<Rightarrow> nat" where
  "attempts s = length (filter (\<lambda>e. e = Connect) (trace s))"

definition sleeps :: "runner \<Rightarrow> int list" where
  "sleeps s = concat (map (\<lambda>e. case e of Sleep d \<Rightarrow> [d] | _ \<Rightarrow> []) (trace s))"

definition copies :: "runner \<Rightarrow> ustr list" where
  "copies s = concat (map (\<lambda>e. case e of Copy c \<Rightarrow> [c] | _ \<Rightarrow> []) (trace s))"

text \<open>
  The backoff rule in the spec's words, read on the effects of a run. A failed
  connection attempt shows as the write of \<open>error\<close>, a terminated one as the write of
  \<open>disconnected\<close>. Each of the two is followed at once by a delay, and the \<open>k\<close>-th
  delay in a row (counting from 0) since the start or since the last write of
  \<open>connected\<close> is \<open>min (2 ^ k) 30\<close>, that is 1, 2, 4, 8, 16, 30, 30, ...; there is no
  delay without a failed or terminated attempt before it. \<open>failures k tr\<close> is the
  count of delays in a row at the end of \<open>tr\<close>.
\<close>

fun backoff_ok :: "nat \<Rightarrow> effect list \<Rightarrow> bool" where
  "backoff_ok k [] = True"
| "backoff_ok k (SetStatus Connected # es) = backoff_ok 0 es"
| "backoff_ok k (SetStatus Error # Sleep d # es) =
     (d = min (2 ^ k) 30 \<and> backoff_ok (Suc k) es)"
| "backoff_ok k (SetStatus Disconnected # Sleep d # es) =
     (d = min (2 ^ k) 30 \<and> backoff_ok (Suc k) es)"
| "backoff_ok k (SetStatus Error # es) = False"
| "backoff_ok k (SetStatus Disconnected # es) = False"
| "backoff_ok k (Sleep d # es) = False"
| "backoff_ok k (e # es) = backoff_ok k es"

fun failures :: "nat \<Rightarrow> effect list \<Rightarrow> nat" where
  "failures k [] = k"
| "failures k (SetStatus Connected # es) = failures 0 es"
| "failures k (Sleep d # es) = failures (Suc k) es"
| "failures k (e # es) = failures k es"

text \<open>The events the suspended coroutine is waiting for.\<close>

fun awaited :: "phase \<Rightarrow> event \<Rightarrow> bool" where
  "awaited NotStarted Start = True"
| "awaited AwaitConnect ConnectOk = True"
| "awaited AwaitConnect ConnectFail = True"
| "awaited Receiving (Frame msg ok) = True"
| "awaited Receiving Close = True"
| "awaited Receiving Fault = True"
| "awaited Sleeping Wake = True"
| "awaited p e = False"

text \<open>\<open>n\<close> connection attempts that fail, each followed by the end of its delay.\<close>

definition failing :: "nat \<Rightarrow> event list" where
  "failing n = concat (replicate n [ConnectFail, Wake])"

text \<open>What holds of the suspended coroutine at every moment.\<close>

definition coherent :: "runner \<Rightarrow> bool" where
  "coherent s =
     (case phase s of
        NotStarted \<Rightarrow> status s = Idle \<and> trace s = []
      | AwaitConnect \<Rightarrow> status s = Connecting
      | Receiving \<Rightarrow> status s = Connected
      | Sleeping \<Rightarrow> status s = Disconnected \<or> status s = Error
      | Finished \<Rightarrow> status s = Stopped \<and> stop_event s \<and> trace s \<noteq> []
                     \<and> last (trace s) = SetStatus Stopped)"

definition backoff_inv :: "runner \<Rightarrow> bool" where
  "backoff_inv s =
     (backoff_ok 0 (trace s) \<and>
      (case phase s of
         NotStarted \<Rightarrow> trace s = []
       | AwaitConnect \<Rightarrow> retry s = min (2 ^ failures 0 (trace s)) 30
       | Receiving \<Rightarrow> retry s = 1 \<and> failures 0 (trace s) = 0
       | Sleeping \<Rightarrow> 0 < failures 0 (trace s)
                     \<and> retry s = min (2 ^ (failures 0 (trace s) - 1)) 30
       | Finished \<Rightarrow> True))"

section \<open>Runs of digits\<close>

text \<open>
  The vocabulary of the properties. Positions count from 0. \<open>digit_run R t i n\<close>: the
  \<open>n\<close> characters of \<open>t\<close> from position \<open>i\<close> are digits. An isolated run is a run of 4
  to 8 digits with no digit right before it and none right after it; an embedded run is
  a run of 4 to 8 digits with a digit right before it or right after it.
\<close>

definition digit_run :: "runtime \<Rightarrow> ustr \<Rightarrow> nat \<Rightarrow> nat \<Rightarrow> bool" where
  "digit_run R t i n = (i + n \<le> length t \<and> list_all (decimal R) (take n (drop i t)))"

definition isolated_run :: "runtime \<Rightarrow> ustr \<Rightarrow> nat \<Rightarrow> nat \<Rightarrow> bool" where
  "isolated_run R t i n =
     (4 \<le> n \<and> n \<le> 8 \<and> digit_run R t i n
      \<and> \<not> (0 < i \<and> decimal R (t ! (i - 1)))
      \<and> \<not> (i + n < length t \<and> decimal R (t ! (i + n))))"

definition embedded_run :: "runtime \<Rightarrow> ustr \<Rightarrow> nat \<Rightarrow> nat \<Rightarrow> bool" where
  "embedded_run R t i n =
     (4 \<le> n \<and> n \<le> 8 \<and> digit_run R t i n
      \<and> ((0 < i \<and> decimal R (t ! (i - 1))) \<or> (i + n < length t \<and> decimal R (t ! (i + n)))))"

text \<open>
  All the runs of 4 to 8 digits of a text, and all its isolated runs, as lists of
  (position, length).
\<close>

definition spans :: "ustr \<Rightarrow> (nat \<times> nat) list" where
  "spans t = List.product [0..<Suc (length t)] [4..<9]"

definition digit_runs :: "runtime \<Rightarrow> ustr \<Rightarrow> (nat \<times> nat) list" where
  "digit_runs R t = filter (\<lambda>(i, n). digit_run R t i n) (spans t)"

definition candidates :: "runtime \<Rightarrow> ustr \<Rightarrow> (nat \<times> nat) list" where
  "candidates R t = filter (\<lambda>(i, n). isolated_run R t i n) (spans t)"

text \<open>A purely numeric string: not empty, and every character a digit.\<close>

definition purely_numeric :: "runtime \<Rightarrow> ustr \<Rightarrow> bool" where
  "purely_numeric R s = (s \<noteq> [] \<and> list_all (decimal R) s)"

text \<open>
  The run \<open>extract_code\<close> selects, as (position, length) in its argument: the span of
  group 1 of the match that decides, moved by the number of whitespace characters that
  \<open>strip\<close> removed in front; \<open>None\<close> when no search matches. Lemma
  \<open>extract_selected\<close> below relates it to the result of \<open>extract_code\<close>.
\<close>

definition lead :: "runtime \<Rightarrow> ustr \<Rightarrow> nat" where
  "lead R text0 = length (takeWhile (whitespace R) text0)"

definition selected :: "runtime \<Rightarrow> ustr \<Rightarrow> (nat \<times> nat) option" where
  "selected R text0 =
     (case find_match R (strip R text0) of
        None \<Rightarrow> None
      | Some s \<Rightarrow>
          (case snd s of None \<Rightarrow> None | Some (a, b) \<Rightarrow> Some (lead R text0 + a, b - a)))"

text \<open>
  A fact of Unicode that some properties need of the runtime: no whitespace character
  is a decimal digit.
\<close>

definition disjoint_classes :: "runtime \<Rightarrow> bool" where
  "disjoint_classes R = (\<forall>c. whitespace R c \<longrightarrow> \<not> decimal R c)"

text \<open>
  For the proofs: a pattern without the capturing group, and a matcher state whose
  group 1 is an isolated run.
\<close>

fun groupless :: "regex \<Rightarrow> bool" where
  "groupless (Group r) = False"
| "groupless (Seq a b) = (groupless a \<and> groupless b)"
| "groupless (Alt a b) = (groupless a \<and> groupless b)"
| "groupless (Opt a) = groupless a"
| "groupless r = True"

definition captures :: "runtime \<Rightarrow> ustr \<Rightarrow> mstate \<Rightarrow> bool" where
  "captures R t s = (\<exists>a b. snd s = Some (a, b) \<and> a \<le> b \<and> isolated_run R t a (b - a))"

text \<open>
  Where a keyword stands: \<open>keyword_at R t a b\<close> when the keyword group matches the
  characters of \<open>t\<close> from position \<open>a\<close> up to position \<open>b\<close>. \<open>gap R t a b\<close>: at
  most 20 characters, none of them a digit, stand from position \<open>a\<close> up to position
  \<open>b\<close> (what \<^verbatim>\<open>\D{0,20}\<close> can take). An isolated run is near a keyword when a keyword
  ends at most such a gap before it, or starts at most such a gap after it.
\<close>

definition keyword_at :: "runtime \<Rightarrow> ustr \<Rightarrow> nat \<Rightarrow> nat \<Rightarrow> bool" where
  "keyword_at R t a b = (b \<in> fst ` set (rmatch R t keyword (a, None)))"

definition gap :: "runtime \<Rightarrow> ustr \<Rightarrow> nat \<Rightarrow> nat \<Rightarrow> bool" where
  "gap R t a b =
     (a \<le> b \<and> b \<le> length t \<and> b - a \<le> 20
      \<and> list_all (\<lambda>c. \<not> decimal R c) (take (b - a) (drop a t)))"

definition near_keyword :: "runtime \<Rightarrow> ustr \<Rightarrow> nat \<Rightarrow> nat \<Rightarrow> bool" where
  "near_keyword R t i n =
     (isolated_run R t i n
      \<and> list_ex
          (\<lambda>a. list_ex (\<lambda>b. gap R t b i \<or> gap R t (i + n) a)
                 (map fst (rmatch R t keyword (a, None))))
          [0..<Suc (length t)])"

definition near_candidates :: "runtime \<Rightarrow> ustr \<Rightarrow> (nat \<times> nat) list" where
  "near_candidates R t = filter (\<lambda>(i, n). near_keyword R t i n) (candidates R t)"

section \<open>A concrete runtime\<close>

text \<open>
  The tables of CPython 3.11 (Unicode 14.0.0), for evaluating the model on concrete
  inputs: the decimal digits are 66 blocks of ten consecutive code points, listed by
  their first; the whitespace characters are the 29 for which \<open>str.isspace\<close>
  holds; a pattern literal matches, ignoring case, the characters with the same
  lowercase form, and besides U+0130 and U+0131 for \<open>i\<close>, U+017F for \<open>s\<close>, U+212A
  for \<open>k\<close>.
\<close>

definition nd_starts :: "cp list" where
  "nd_starts =
     [48, 1632, 1776, 1984, 2406, 2534, 2662, 2790, 2918, 3046, 3174, 3302, 3430,
      3558, 3664, 3792, 3872, 4160, 4240, 6112, 6160, 6470, 6608, 6784, 6800, 6992,
      7088, 7232, 7248, 42528, 43216, 43264, 43472, 43504, 43600, 44016, 65296,
      66720, 68912, 69734, 69872, 69942, 70096, 70384, 70736, 70864, 71248, 71360,
      71472, 71904, 72016, 72784, 73040, 73120, 92768, 92864, 93008, 120782, 120792,
      120802, 120812, 120822, 123200, 123632, 125264, 130032]"

definition py_decimal :: "cp \<Rightarrow> bool" where
  "py_decimal c = list_ex (\<lambda>s. s \<le> c \<and> c < s + 10) nd_starts"

definition py_whitespace :: "cp \<Rightarrow> bool" where
  "py_whitespace c =
     (c \<in> set [9, 10, 11, 12, 13, 28, 29, 30, 31, 32, 133, 160, 5760, 8192, 8193, 8194, 8195,
               8196, 8197, 8198, 8199, 8200, 8201, 8202, 8232, 8233, 8239, 8287, 12288])"

definition ascii_lower :: "cp \<Rightarrow> cp" where
  "ascii_lower c = (if 65 \<le> c \<and> c \<le> 90 then c + 32 else c)"

definition py_caseless :: "cp \<Rightarrow> cp \<Rightarrow> bool" where
  "py_caseless p c =
     (ascii_lower c = ascii_lower p
      \<or> (ascii_lower p = 105 \<and> (c = 304 \<or> c = 305))
      \<or> (ascii_lower p = 115 \<and> c = 383)
      \<or> (ascii_lower p = 107 \<and> c = 8490))"

text \<open>
  Three frames and what \<open>json.loads\<close> returns on them. \<open>sample_loads\<close> is
  \<open>json.loads\<close> on these three frames and on every frame that is not JSON. The
  values in the sample frames under \<open>text\<close> are strings, so \<open>render\<close> is never
  applied; it is given as the empty string.
\<close>

definition frame_short :: ustr where
  \<open>frame_short = asc ''{"text": "Security code is 123."}''\<close>

definition frame_no_text :: ustr where
  \<open>frame_no_text = asc ''{"otp": "4827"}''\<close>

definition frame_number :: ustr where
  "frame_number = asc ''931018''"

definition sample_loads :: "ustr \<Rightarrow> json option" where
  "sample_loads msg =
     (if msg = frame_short
      then Some (JObj [(asc ''text'', JStr (asc ''Security code is 123.''))])
      else if msg = frame_no_text
      then Some (JObj [(asc ''otp'', JStr (asc ''4827''))])
      else if msg = frame_number
      then Some (JInt 931018)
      else None)"

definition py :: runtime where
  "py = \<lparr>decimal = py_decimal, whitespace = py_whitespace, caseless = py_caseless,
          loads = sample_loads, render = (\<lambda>v. [])\<rparr>"

section \<open>Properties of the supervisor\<close>

lemma extract_code_dyn_PStr [simp]: "extract_code_dyn R (PStr s) = Inr (extract_code R s)"
  by (simp add: extract_code_dyn_def or_empty_def)

lemma run_snoc: "run R (es @ [e]) = step R (run R es) e"
  by (simp add: run_def)

lemma run_append: "run R (es @ es') = foldl (step R) (run R es) es'"
  by (simp add: run_def)

lemmas step_defs = set_status_def emit_def finish_def loop_head_def on_exception_def
  on_loop_end_def on_frame_def

lemma coherent_initial: "coherent initial"
  by (simp add: coherent_def initial_def)

lemma coherent_step: "coherent s \<Longrightarrow> coherent (step R s e)"
  by (cases e; cases "phase s") (auto simp: coherent_def step_defs Let_def)

lemma coherent_run: "coherent (run R es)"
proof (induction es rule: rev_induct)
  case Nil
  show ?case by (simp add: run_def coherent_initial)
next
  case (snoc e es)
  then show ?case by (simp add: run_snoc coherent_step)
qed

lemma stop_event_step: "stop_event s \<Longrightarrow> stop_event (step R s e)"
  by (cases e) (auto simp: step_defs Let_def)

lemma stop_event_foldl: "stop_event s \<Longrightarrow> stop_event (foldl (step R) s es)"
  by (induction es arbitrary: s) (simp_all add: stop_event_step)

lemma stop_event_other: "e \<noteq> Stop \<Longrightarrow> stop_event (step R s e) = stop_event s"
  by (cases e) (auto simp: step_defs Let_def)

lemma stop_event_run: "stop_event (run R es) \<Longrightarrow> Stop \<in> set es"
proof (induction es rule: rev_induct)
  case Nil
  then show ?case by (simp add: run_def initial_def)
next
  case (snoc e es)
  then show ?case by (cases "e = Stop") (simp_all add: run_snoc stop_event_other)
qed

lemma finished_step: "coherent s \<Longrightarrow> phase s = Finished \<Longrightarrow> step R s e = s"
  by (cases e) (auto simp: coherent_def)

lemma finished_foldl: "coherent s \<Longrightarrow> phase s = Finished \<Longrightarrow> foldl (step R) s es = s"
  by (induction es) (simp_all add: finished_step)

lemma attempts_step: "stop_event s \<Longrightarrow> attempts (step R s e) = attempts s"
  by (cases e) (auto simp: attempts_def step_defs Let_def)

lemma attempts_foldl: "stop_event s \<Longrightarrow> attempts (foldl (step R) s es) = attempts s"
proof (induction es arbitrary: s)
  case Nil
  show ?case by simp
next
  case (Cons e es)
  have "stop_event (step R s e)" using Cons.prems by (rule stop_event_step)
  then have "attempts (foldl (step R) (step R s e) es) = attempts (step R s e)"
    by (rule Cons.IH)
  then show ?case using Cons.prems by (simp add: attempts_step)
qed

lemma backoff_ok_append:
  "backoff_ok k xs \<Longrightarrow> backoff_ok k (xs @ ys) = backoff_ok (failures k xs) ys"
  by (induction k xs rule: backoff_ok.induct) auto

lemma failures_append: "failures k (xs @ ys) = failures (failures k xs) ys"
  by (induction k xs rule: failures.induct) auto

lemma double_capped: "min (min (2 ^ k) 30 * 2) (30::int) = min (2 ^ Suc k) 30"
  by (simp add: min_def)

lemma backoff_inv_initial: "backoff_inv initial"
  by (simp add: backoff_inv_def initial_def)

lemma backoff_inv_step: "backoff_inv s \<Longrightarrow> backoff_inv (step R s e)"
  by (cases e; cases "phase s")
     (auto simp: backoff_inv_def step_defs Let_def backoff_ok_append failures_append
        double_capped)

lemma backoff_inv_run: "backoff_inv (run R es)"
proof (induction es rule: rev_induct)
  case Nil
  show ?case by (simp add: run_def backoff_inv_initial)
next
  case (snoc e es)
  then show ?case by (simp add: run_snoc backoff_inv_step)
qed

lemma run_Cons: "run R (e # es) = foldl (step R) (step R initial e) es"
  by (simp add: run_def)

lemma failing_Suc: "failing (Suc n) = [ConnectFail, Wake] @ failing n"
  by (simp add: failing_def)

lemma failing_foldl:
  "phase s = AwaitConnect \<Longrightarrow> \<not> stop_event s \<Longrightarrow> retry s = min (2 ^ j) 30 \<Longrightarrow>
     phase (foldl (step R) s (failing m)) = AwaitConnect
     \<and> \<not> stop_event (foldl (step R) s (failing m))
     \<and> retry (foldl (step R) s (failing m)) = min (2 ^ (j + m)) 30
     \<and> sleeps (foldl (step R) s (failing m))
         = sleeps s @ map (\<lambda>k. min (2 ^ k) 30) [j..<j + m]"
proof (induction m arbitrary: s j)
  case 0
  then show ?case by (simp add: failing_def)
next
  case (Suc m)
  let ?s2 = "step R (step R s ConnectFail) Wake"
  have a: "phase ?s2 = AwaitConnect" "\<not> stop_event ?s2"
    using Suc.prems by (simp_all add: step_defs)
  have b: "retry ?s2 = min (2 ^ Suc j) 30"
    using Suc.prems by (simp add: step_defs double_capped)
  have c: "sleeps ?s2 = sleeps s @ [min (2 ^ j) 30]"
    using Suc.prems by (simp add: step_defs sleeps_def)
  have d: "[j..<j + Suc m] = j # [Suc j..<Suc j + m]"
    by (simp add: upt_conv_Cons)
  show ?case
    using Suc.IH [OF a b] c d by (simp add: failing_Suc)
qed

section \<open>Properties of the matcher and of \<open>extract_code\<close>\<close>

lemma takeWhile_len:
  "k \<le> length (takeWhile P xs) \<longleftrightarrow> k \<le> length xs \<and> list_all P (take k xs)"
proof (induction xs arbitrary: k)
  case Nil
  show ?case by simp
next
  case (Cons x xs)
  show ?case by (cases k) (auto simp: Cons.IH)
qed

lemma span_len_le:
  "k \<le> span_len R c hi xs \<longleftrightarrow>
     (case hi of None \<Rightarrow> True | Some h \<Rightarrow> k \<le> h) \<and> k \<le> length xs
     \<and> list_all (in_class R c) (take k xs)"
  by (cases hi) (auto simp: span_len_def Let_def takeWhile_len)

lemma in_rmatch_Rep:
  "(j, g') \<in> set (rmatch R t (Rep c lo hi) (i, g)) \<longleftrightarrow>
     g' = g \<and> (\<exists>k. j = i + k \<and> lo \<le> k \<and> k \<le> span_len R c hi (drop i t))"
  by auto

lemma in_rmatch_Seq:
  "s' \<in> set (rmatch R t (Seq a b) s) \<longleftrightarrow> (\<exists>m\<in>set (rmatch R t a s). s' \<in> set (rmatch R t b m))"
  by auto

lemma in_rmatch_Alt:
  "s' \<in> set (rmatch R t (Alt a b) s) \<longleftrightarrow>
     s' \<in> set (rmatch R t a s) \<or> s' \<in> set (rmatch R t b s)"
  by auto

lemma in_rmatch_Opt:
  "s' \<in> set (rmatch R t (Opt a) s) \<longleftrightarrow> s' \<in> set (rmatch R t a s) \<or> s' = s"
  by auto

lemma in_rmatch_Eps: "s' \<in> set (rmatch R t Eps s) \<longleftrightarrow> s' = s"
  by auto

lemma in_rmatch_Chr:
  "(j, g') \<in> set (rmatch R t (Chr c) (i, g)) \<longleftrightarrow>
     g' = g \<and> j = Suc i \<and> i < length t \<and> in_class R c (t ! i)"
  by auto

lemma in_rmatch_Group:
  "(j, g') \<in> set (rmatch R t (Group a) (i, g)) \<longleftrightarrow>
     g' = Some (i, j) \<and> (\<exists>h. (j, h) \<in> set (rmatch R t a (i, g)))"
  by (auto simp: image_iff simp del: rmatch.simps(3)) force+

lemma in_rmatch_NotBehind:
  "(j, g') \<in> set (rmatch R t (NotBehind c) (i, g)) \<longleftrightarrow>
     g' = g \<and> j = i \<and> \<not> (0 < i \<and> i \<le> length t \<and> in_class R c (t ! (i - 1)))"
  by auto

lemma in_rmatch_NotAhead:
  "(j, g') \<in> set (rmatch R t (NotAhead c) (i, g)) \<longleftrightarrow>
     g' = g \<and> j = i \<and> \<not> (i < length t \<and> in_class R c (t ! i))"
  by auto

lemma in_rmatch_Seq_pair:
  "(j, g') \<in> set (rmatch R t (Seq a b) (i, g)) \<longleftrightarrow>
     (\<exists>k h. (k, h) \<in> set (rmatch R t a (i, g)) \<and> (j, g') \<in> set (rmatch R t b (k, h)))"
  by auto

lemma in_class_Digit: "in_class R Digit = decimal R"
  by (rule ext) simp

lemmas in_rmatch = in_rmatch_Rep in_rmatch_Seq in_rmatch_Alt in_rmatch_Opt in_rmatch_Eps
  in_rmatch_Chr in_rmatch_Group in_rmatch_NotBehind in_rmatch_NotAhead

declare rmatch.simps [simp del]

lemma in_rmatch_digits:
  "(j, g') \<in> set (rmatch R t (Group (Rep Digit 4 (Some 8))) (i, g)) \<longleftrightarrow>
     g' = Some (i, j) \<and> i \<le> j \<and> 4 \<le> j - i \<and> j - i \<le> 8 \<and> digit_run R t i (j - i)"
proof -
  have "(\<exists>k. j = i + k \<and> 4 \<le> k \<and> k \<le> 8 \<and> k \<le> length t - i
           \<and> list_all (decimal R) (take k (drop i t)))
        \<longleftrightarrow> (i \<le> j \<and> 4 \<le> j - i \<and> j - i \<le> 8 \<and> i + (j - i) \<le> length t
           \<and> list_all (decimal R) (take (j - i) (drop i t)))"
    by (rule iffI) (auto intro: exI [of _ "j - i"])
  then show ?thesis
    by (simp add: in_rmatch_Group in_rmatch_Rep span_len_le digit_run_def in_class_Digit)
qed

lemma in_rmatch_isolated:
  "(j, g') \<in> set (rmatch R t isolated_digits (i, g)) \<longleftrightarrow>
     g' = Some (i, j) \<and> i \<le> j \<and> isolated_run R t i (j - i)"
  unfolding isolated_digits_def
  by (simp add: in_rmatch_Seq_pair in_rmatch_NotBehind in_rmatch_NotAhead in_rmatch_digits
        isolated_run_def digit_run_def) auto

lemma isolated_state:
  "m \<in> set (rmatch R t isolated_digits (i, g)) \<Longrightarrow>
     \<exists>j. m = (j, Some (i, j)) \<and> i \<le> j \<and> isolated_run R t i (j - i)"
  by (cases m) (simp add: in_rmatch_isolated)

lemma groupless_keeps:
  "groupless r \<Longrightarrow> (j, g') \<in> set (rmatch R t r (i, g)) \<Longrightarrow> g' = g"
proof (induction r arbitrary: i g j g')
  case (Seq a b)
  from Seq.prems obtain m where m: "m \<in> set (rmatch R t a (i, g))"
    and s: "(j, g') \<in> set (rmatch R t b m)"
    by (auto simp: in_rmatch_Seq)
  obtain k h where mk: "m = (k, h)" by (cases m)
  have "h = g" using Seq.IH(1) [of k h i g] Seq.prems(1) m mk by simp
  then show ?case using Seq.IH(2) [of j g' k h] Seq.prems(1) s mk by simp
qed (auto simp: in_rmatch)

lemma groupless_word: "groupless (word w)"
  by (induction w) (simp_all add: word_def)

lemma groupless_keyword: "groupless keyword"
  by (simp add: keyword_def alts_def groupless_word)

lemma scan_Some:
  "scan R r t starts = Some s \<Longrightarrow> \<exists>i\<in>set starts. s \<in> set (rmatch R t r (i, None))"
  by (induction starts) (auto split: list.splits)

lemma scan_None:
  "scan R r t starts = None \<longleftrightarrow> (\<forall>i\<in>set starts. rmatch R t r (i, None) = [])"
  by (induction starts) (auto split: list.splits)

lemma sound_isolated:
  "s \<in> set (rmatch R t isolated_digits (i, None)) \<Longrightarrow> captures R t s"
  by (cases s) (auto simp: in_rmatch_isolated captures_def)

lemma sound_keyword_then_digits:
  "s \<in> set (rmatch R t keyword_then_digits (i, None)) \<Longrightarrow> captures R t s"
  unfolding keyword_then_digits_def in_rmatch_Seq
  by (cases s) (auto simp: in_rmatch_isolated captures_def)

lemma sound_digits_then_keyword:
  assumes "s \<in> set (rmatch R t digits_then_keyword (i, None))"
  shows "captures R t s"
proof -
  from assms obtain m1 m2 where
    m1: "m1 \<in> set (rmatch R t isolated_digits (i, None))" and
    m2: "m2 \<in> set (rmatch R t (Rep NonDigit 0 (Some 20)) m1)" and
    s: "s \<in> set (rmatch R t keyword m2)"
    unfolding digits_then_keyword_def in_rmatch_Seq by blast
  obtain j where j: "m1 = (j, Some (i, j))" "i \<le> j" "isolated_run R t i (j - i)"
    using isolated_state [OF m1] by blast
  obtain p h where m2eq: "m2 = (p, h)" by (cases m2)
  obtain q h' where seq: "s = (q, h')" by (cases s)
  have "h = Some (i, j)"
    using m2 j(1) m2eq by (simp add: in_rmatch_Rep)
  moreover have "h' = h"
    using s groupless_keeps [OF groupless_keyword, of q h' R t p h] m2eq seq by simp
  ultimately show ?thesis using j seq by (auto simp: captures_def)
qed

lemma re_search_sound:
  assumes "re_search R r t = Some s"
  shows "\<exists>i. s \<in> set (rmatch R t r (i, None))"
  using scan_Some [of R r t "[0..<Suc (length t)]" s] assms by (auto simp: re_search_def)

lemma find_match_sound: "find_match R t = Some s \<Longrightarrow> captures R t s"
  by (auto simp: find_match_def split: option.splits
        dest!: re_search_sound dest: sound_isolated sound_keyword_then_digits
          sound_digits_then_keyword)

lemma isolated_run_bound: "isolated_run R t i n \<Longrightarrow> i + n \<le> length t"
  by (simp add: isolated_run_def digit_run_def)

lemma re_search_isolated_complete:
  assumes "isolated_run R t i n"
  shows "re_search R isolated_digits t \<noteq> None"
proof
  assume "re_search R isolated_digits t = None"
  then have none: "\<forall>k\<in>set [0..<Suc (length t)]. rmatch R t isolated_digits (k, None) = []"
    by (simp only: re_search_def scan_None)
  have "i \<in> set [0..<Suc (length t)]"
    using isolated_run_bound [OF assms] by (simp del: upt_Suc)
  with none have "rmatch R t isolated_digits (i, None) = []" by blast
  moreover have "(i + n, Some (i, i + n)) \<in> set (rmatch R t isolated_digits (i, None))"
    using assms by (simp add: in_rmatch_isolated)
  ultimately show False by simp
qed

lemma find_match_complete: "isolated_run R t i n \<Longrightarrow> find_match R t \<noteq> None"
  using re_search_isolated_complete [of R t i n]
  by (auto simp: find_match_def split: option.splits)

lemma find_match_None: "find_match R t = None \<longleftrightarrow> (\<forall>i n. \<not> isolated_run R t i n)"
proof
  assume "find_match R t = None"
  then show "\<forall>i n. \<not> isolated_run R t i n" using find_match_complete by blast
next
  assume no: "\<forall>i n. \<not> isolated_run R t i n"
  show "find_match R t = None"
  proof (cases "find_match R t")
    case None
    then show ?thesis .
  next
    case (Some s)
    then have "captures R t s" by (rule find_match_sound)
    with no show ?thesis by (auto simp: captures_def)
  qed
qed


subsection \<open>strip\<close>

lemma strip_decomp:
  "\<exists>r. text0 = takeWhile (whitespace R) text0 @ strip R text0 @ r \<and> list_all (whitespace R) r"
proof -
  let ?P = "whitespace R"
  let ?d = "dropWhile ?P text0"
  have "?d = rev (takeWhile ?P (rev ?d) @ dropWhile ?P (rev ?d))"
    by (simp only: takeWhile_dropWhile_id rev_rev_ident)
  then have d: "?d = strip R text0 @ rev (takeWhile ?P (rev ?d))"
    by (simp only: rev_append strip_def)
  have "list_all ?P (rev (takeWhile ?P (rev ?d)))"
    by (auto simp: list_all_iff dest: set_takeWhileD)
  moreover have "text0 = takeWhile ?P text0 @ strip R text0 @ rev (takeWhile ?P (rev ?d))"
    using d takeWhile_dropWhile_id [of ?P text0] by simp
  ultimately show ?thesis by blast
qed

lemma lead_whitespace: "k < lead R text0 \<Longrightarrow> whitespace R (text0 ! k)"
  unfolding lead_def using nth_length_takeWhile takeWhile_nth
  by (metis nth_mem set_takeWhileD)

lemma strip_blank: "list_all (whitespace R) text0 \<Longrightarrow> strip R text0 = []"
proof -
  assume "list_all (whitespace R) text0"
  then have "dropWhile (whitespace R) text0 = []" by (simp add: list_all_iff)
  then show ?thesis by (simp only: strip_def rev.simps dropWhile.simps)
qed

lemma strip_last: "strip R text0 \<noteq> [] \<Longrightarrow> \<not> whitespace R (last (strip R text0))"
proof -
  let ?e = "dropWhile (whitespace R) (rev (dropWhile (whitespace R) text0))"
  assume "strip R text0 \<noteq> []"
  then have ne: "?e \<noteq> []" by (simp only: strip_def rev_is_Nil_conv not_False_eq_True)
  then have "\<not> whitespace R (hd ?e)" by (rule hd_dropWhile)
  moreover have "last (rev ?e) = hd ?e" using ne by (simp only: last_rev)
  ultimately show ?thesis by (simp add: strip_def)
qed

lemma strip_hd: "strip R text0 \<noteq> [] \<Longrightarrow> \<not> whitespace R (hd (strip R text0))"
proof -
  assume ne: "strip R text0 \<noteq> []"
  obtain r where r: "text0 = takeWhile (whitespace R) text0 @ strip R text0 @ r"
    using strip_decomp by blast
  have "dropWhile (whitespace R) text0 = strip R text0 @ r"
    using r takeWhile_dropWhile_id [of "whitespace R" text0] by (metis same_append_eq)
  then have "hd (dropWhile (whitespace R) text0) = hd (strip R text0)"
    using ne by simp
  moreover have "dropWhile (whitespace R) text0 \<noteq> []"
    using \<open>dropWhile (whitespace R) text0 = strip R text0 @ r\<close> ne by simp
  ultimately show ?thesis using hd_dropWhile by metis
qed

lemma strip_idem: "strip R (strip R text0) = strip R text0"
proof (cases "strip R text0 = []")
  case True
  have "strip R [] = []" by (simp add: strip_def)
  then show ?thesis using True by simp
next
  case False
  let ?s = "strip R text0"
  have a: "dropWhile (whitespace R) ?s = ?s"
    using strip_hd [OF False] by (simp add: dropWhile_eq_self_iff)
  have "hd (rev ?s) = last ?s" using False by (simp add: hd_rev)
  then have b: "dropWhile (whitespace R) (rev ?s) = rev ?s"
    using strip_last [OF False] False by (simp add: dropWhile_eq_self_iff)
  have "strip R ?s = rev (dropWhile (whitespace R) (rev (dropWhile (whitespace R) ?s)))"
    by (simp add: strip_def)
  then show ?thesis using a b by simp
qed

subsection \<open>extract_code and the match\<close>

lemma digit_run_nth:
  "digit_run R t i n \<longleftrightarrow> i + n \<le> length t \<and> (\<forall>k<n. decimal R (t ! (i + k)))"
  by (auto simp: digit_run_def list_all_length)

lemma isolated_run_nonempty: "isolated_run R t i n \<Longrightarrow> t \<noteq> []"
  by (auto simp: isolated_run_def digit_run_def)

lemma extract_code_None: "find_match R (strip R text0) = None \<Longrightarrow> extract_code R text0 = strip R text0"
  by (simp add: extract_code_def Let_def)

lemma extract_code_Some:
  assumes "find_match R (strip R text0) = Some s"
  shows "extract_code R text0 = group1 (strip R text0) s"
proof -
  have "captures R (strip R text0) s" using assms by (rule find_match_sound)
  then have "strip R text0 \<noteq> []" by (auto simp: captures_def dest: isolated_run_nonempty)
  then show ?thesis using assms by (simp add: extract_code_def Let_def)
qed

lemma group1_numeric:
  assumes "captures R t s"
  shows "purely_numeric R (group1 t s)"
proof -
  from assms obtain a b where ab: "snd s = Some (a, b)" "a \<le> b" "isolated_run R t a (b - a)"
    by (auto simp: captures_def)
  then have "4 \<le> b - a" "a + (b - a) \<le> length t"
    "list_all (decimal R) (take (b - a) (drop a t))"
    by (auto simp: isolated_run_def digit_run_def)
  then show ?thesis using ab(1) by (auto simp: purely_numeric_def group1_def)
qed

lemma in_spans: "(i, n) \<in> set (spans t) \<longleftrightarrow> i \<le> length t \<and> 4 \<le> n \<and> n \<le> 8"
  by (auto simp: spans_def simp del: upt_Suc)

lemma in_digit_runs:
  "(i, n) \<in> set (digit_runs R t) \<longleftrightarrow> 4 \<le> n \<and> n \<le> 8 \<and> digit_run R t i n"
  by (auto simp: digit_runs_def in_spans digit_run_def)

lemma in_candidates: "(i, n) \<in> set (candidates R t) \<longleftrightarrow> isolated_run R t i n"
  by (auto simp: candidates_def in_spans isolated_run_def digit_run_def)

lemma strip_length: "lead R text0 + length (strip R text0) \<le> length text0"
proof -
  obtain r where r: "text0 = takeWhile (whitespace R) text0 @ strip R text0 @ r"
    using strip_decomp by blast
  have "length text0 = length (takeWhile (whitespace R) text0 @ strip R text0 @ r)"
    using r by simp
  then show ?thesis by (simp add: lead_def)
qed

lemma strip_nth: "k < length (strip R text0) \<Longrightarrow> text0 ! (lead R text0 + k) = strip R text0 ! k"
proof -
  assume k: "k < length (strip R text0)"
  obtain r where r: "text0 = takeWhile (whitespace R) text0 @ strip R text0 @ r"
    using strip_decomp by blast
  have "(takeWhile (whitespace R) text0 @ strip R text0 @ r) ! (lead R text0 + k)
        = strip R text0 ! k"
    using k by (simp add: lead_def nth_append)
  then show ?thesis using r by simp
qed

lemma trail_whitespace:
  assumes "lead R text0 + length (strip R text0) \<le> k" and "k < length text0"
  shows "whitespace R (text0 ! k)"
proof -
  obtain r where r: "text0 = takeWhile (whitespace R) text0 @ strip R text0 @ r"
    and ws: "list_all (whitespace R) r"
    using strip_decomp by blast
  let ?m = "lead R text0 + length (strip R text0)"
  have len: "length text0 = ?m + length r"
  proof -
    have "length text0 = length (takeWhile (whitespace R) text0 @ strip R text0 @ r)"
      using r by simp
    then show ?thesis by (simp add: lead_def)
  qed
  have keq: "k = length (takeWhile (whitespace R) text0)
      + (length (strip R text0) + (k - ?m))"
    using assms(1) by (simp add: lead_def)
  have "(takeWhile (whitespace R) text0 @ strip R text0 @ r)
          ! (length (takeWhile (whitespace R) text0) + (length (strip R text0) + (k - ?m)))
        = r ! (k - ?m)"
    by (simp only: nth_append_length_plus)
  then have "text0 ! k = r ! (k - ?m)" using r keq by simp
  moreover have "k - ?m < length r" using assms len by simp
  ultimately show ?thesis using ws by (simp add: list_all_length)
qed


lemma digit_run_strip:
  assumes "digit_run R (strip R text0) i n"
  shows "digit_run R text0 (lead R text0 + i) n"
proof -
  have len: "i + n \<le> length (strip R text0)"
    and dig: "\<forall>k<n. decimal R (strip R text0 ! (i + k))"
    using assms by (simp_all add: digit_run_nth)
  have "lead R text0 + i + k = lead R text0 + (i + k)" for k by simp
  then have "decimal R (text0 ! (lead R text0 + i + k))" if "k < n" for k
    using strip_nth [of "i + k" R text0] len dig that by (simp add: add.assoc)
  moreover have "lead R text0 + i + n \<le> length text0"
    using len strip_length [of R text0] by simp
  ultimately show ?thesis by (simp add: digit_run_nth)
qed

lemma slice_strip:
  assumes "a + m \<le> length (strip R text0)"
  shows "take m (drop (lead R text0 + a) text0) = take m (drop a (strip R text0))"
proof -
  obtain r where r: "text0 = takeWhile (whitespace R) text0 @ strip R text0 @ r"
    using strip_decomp by blast
  let ?l = "takeWhile (whitespace R) text0"
  have "drop (length ?l + a) (?l @ strip R text0 @ r) = drop a (strip R text0) @ r"
    using assms by simp
  then have "drop (lead R text0 + a) text0 = drop a (strip R text0) @ r"
    using r by (simp add: lead_def)
  then show ?thesis using assms by simp
qed

lemma isolated_run_unstrip:
  assumes dis: "disjoint_classes R" and iso: "isolated_run R (strip R text0) a n"
  shows "isolated_run R text0 (lead R text0 + a) n"
proof -
  let ?s = "strip R text0" and ?L = "lead R text0"
  have n: "4 \<le> n" "n \<le> 8" and dr: "digit_run R ?s a n"
    and bef: "\<not> (0 < a \<and> decimal R (?s ! (a - 1)))"
    and aft: "\<not> (a + n < length ?s \<and> decimal R (?s ! (a + n)))"
    using iso by (simp_all add: isolated_run_def)
  have len: "a + n \<le> length ?s" using dr by (simp add: digit_run_def)
  have ws: "\<not> decimal R c" if "whitespace R c" for c
    using dis that by (simp add: disjoint_classes_def)
  have before: "\<not> (0 < ?L + a \<and> decimal R (text0 ! (?L + a - 1)))"
  proof (cases "0 < a")
    case True
    then have "?L + a - 1 = ?L + (a - 1)" by simp
    moreover have "text0 ! (?L + (a - 1)) = ?s ! (a - 1)"
      using True len n by (intro strip_nth) simp
    ultimately show ?thesis using bef True by simp
  next
    case False
    show ?thesis
    proof (cases "0 < ?L")
      case True
      then have "whitespace R (text0 ! (?L - 1))" by (intro lead_whitespace) simp
      then show ?thesis using False ws by simp
    next
      case False
      then show ?thesis using \<open>\<not> 0 < a\<close> by simp
    qed
  qed
  have after: "\<not> (?L + a + n < length text0 \<and> decimal R (text0 ! (?L + a + n)))"
  proof (cases "a + n < length ?s")
    case True
    have "text0 ! (?L + (a + n)) = ?s ! (a + n)" using True by (rule strip_nth)
    then show ?thesis using aft True by (simp add: add.assoc)
  next
    case False
    then have "?L + length ?s \<le> ?L + a + n" by simp
    then have "whitespace R (text0 ! (?L + a + n))" if "?L + a + n < length text0"
      using that by (rule trail_whitespace)
    then show ?thesis using ws by blast
  qed
  show ?thesis
    using n digit_run_strip [OF dr] before after by (simp add: isolated_run_def)
qed

lemma isolated_run_strip:
  assumes dis: "disjoint_classes R" and iso: "isolated_run R text0 i n"
  shows "lead R text0 \<le> i \<and> isolated_run R (strip R text0) (i - lead R text0) n"
proof -
  let ?s = "strip R text0" and ?L = "lead R text0"
  have n: "4 \<le> n" "n \<le> 8" and dr: "digit_run R text0 i n"
    and bef: "\<not> (0 < i \<and> decimal R (text0 ! (i - 1)))"
    and aft: "\<not> (i + n < length text0 \<and> decimal R (text0 ! (i + n)))"
    using iso by (simp_all add: isolated_run_def)
  have len: "i + n \<le> length text0" and dig: "\<forall>k<n. decimal R (text0 ! (i + k))"
    using dr by (simp_all add: digit_run_nth)
  have ws: "\<not> decimal R c" if "whitespace R c" for c
    using dis that by (simp add: disjoint_classes_def)
  have first: "decimal R (text0 ! i)" using dig n by (metis add.right_neutral not_numeral_le_zero not_gr_zero)
  have lead_le: "?L \<le> i"
  proof (rule ccontr)
    assume "\<not> ?L \<le> i"
    then have "whitespace R (text0 ! i)" by (intro lead_whitespace) simp
    then show False using ws first by blast
  qed
  have "n - 1 < n" using n by simp
  then have lastd: "decimal R (text0 ! (i + (n - 1)))" using dig by blast
  have end_le: "i + n \<le> ?L + length ?s"
  proof (rule ccontr)
    assume "\<not> i + n \<le> ?L + length ?s"
    then have "?L + length ?s \<le> i + (n - 1)" by simp
    moreover have "i + (n - 1) < length text0" using len n by simp
    ultimately have "whitespace R (text0 ! (i + (n - 1)))" by (rule trail_whitespace)
    then show False using ws lastd by blast
  qed
  have nth: "?s ! (i - ?L + k) = text0 ! (i + k)" if "i + k < ?L + length ?s" for k
  proof -
    have "text0 ! (?L + (i - ?L + k)) = ?s ! (i - ?L + k)"
      using that lead_le by (intro strip_nth) simp
    then show ?thesis using lead_le by simp
  qed
  have "digit_run R ?s (i - ?L) n"
  proof -
    have "decimal R (?s ! (i - ?L + k))" if "k < n" for k
      using nth [of k] dig that end_le by simp
    then show ?thesis using end_le lead_le by (simp add: digit_run_nth)
  qed
  moreover have "\<not> (0 < i - ?L \<and> decimal R (?s ! (i - ?L - 1)))"
  proof
    assume a: "0 < i - ?L \<and> decimal R (?s ! (i - ?L - 1))"
    have "i - ?L - 1 < length ?s" using a end_le n by linarith
    then have "text0 ! (?L + (i - ?L - 1)) = ?s ! (i - ?L - 1)"
      by (rule strip_nth)
    moreover have "?L + (i - ?L - 1) = i - 1" using a by simp
    ultimately show False using a bef by simp
  qed
  moreover have "\<not> (i - ?L + n < length ?s \<and> decimal R (?s ! (i - ?L + n)))"
  proof
    assume a: "i - ?L + n < length ?s \<and> decimal R (?s ! (i - ?L + n))"
    then have lt: "i + n < ?L + length ?s" using lead_le by linarith
    then have "?s ! (i - ?L + n) = text0 ! (i + n)" by (rule nth)
    moreover have "i + n < length text0" using lt strip_length [of R text0] by simp
    ultimately show False using a aft by simp
  qed
  ultimately show ?thesis using n lead_le by (simp add: isolated_run_def)
qed

lemma selected_Some:
  assumes "selected R text0 = Some (i, n)"
  shows "\<exists>a. i = lead R text0 + a \<and> isolated_run R (strip R text0) a n
          \<and> extract_code R text0 = take n (drop a (strip R text0))"
proof -
  from assms obtain st a b where st: "find_match R (strip R text0) = Some st"
    and g: "snd st = Some (a, b)" and i: "i = lead R text0 + a" and nn: "n = b - a"
    by (auto simp: selected_def split: option.splits)
  have "captures R (strip R text0) st" using st by (rule find_match_sound)
  then have "isolated_run R (strip R text0) a (b - a)" using g by (auto simp: captures_def)
  moreover have "extract_code R text0 = take (b - a) (drop a (strip R text0))"
    using extract_code_Some [OF st] g by (simp add: group1_def)
  ultimately show ?thesis using i nn by blast
qed

lemma selected_None: "selected R text0 = None \<Longrightarrow> extract_code R text0 = strip R text0"
proof -
  assume sel: "selected R text0 = None"
  have "find_match R (strip R text0) = None"
  proof (cases "find_match R (strip R text0)")
    case None
    then show ?thesis .
  next
    case (Some st)
    then have "captures R (strip R text0) st" by (rule find_match_sound)
    then show ?thesis using sel Some by (auto simp: captures_def selected_def)
  qed
  then show ?thesis by (rule extract_code_None)
qed

lemma extract_selected:
  "extract_code R text0 =
     (case selected R text0 of None \<Rightarrow> strip R text0 | Some (i, n) \<Rightarrow> take n (drop i text0))"
proof (cases "selected R text0")
  case None
  then show ?thesis by (simp add: selected_None)
next
  case (Some p)
  obtain i n where p: "p = (i, n)" by (cases p)
  from selected_Some [of R text0 i n] Some p obtain a where
    a: "i = lead R text0 + a" "isolated_run R (strip R text0) a n"
       "extract_code R text0 = take n (drop a (strip R text0))"
    by auto
  have "a + n \<le> length (strip R text0)" using a(2) by (rule isolated_run_bound)
  then have "take n (drop (lead R text0 + a) text0) = take n (drop a (strip R text0))"
    by (rule slice_strip)
  then show ?thesis using Some p a by simp
qed

subsection \<open>Runs near a keyword\<close>

lemma near_keyword_iff:
  "near_keyword R t i n \<longleftrightarrow>
     isolated_run R t i n
     \<and> (\<exists>a b. a \<le> length t \<and> keyword_at R t a b \<and> (gap R t b i \<or> gap R t (i + n) a))"
proof -
  let ?Q = "\<lambda>a b. gap R t b i \<or> gap R t (i + n) a"
  have "list_ex (\<lambda>a. list_ex (?Q a) (map fst (rmatch R t keyword (a, None))))
          [0..<Suc (length t)]
        \<longleftrightarrow> (\<exists>a b. a \<le> length t \<and> keyword_at R t a b \<and> ?Q a b)"
  proof
    assume "list_ex (\<lambda>a. list_ex (?Q a) (map fst (rmatch R t keyword (a, None))))
          [0..<Suc (length t)]"
    then obtain a b where "a \<in> set [0..<Suc (length t)]"
      "b \<in> set (map fst (rmatch R t keyword (a, None)))" "?Q a b"
      unfolding list_ex_iff by blast
    then have "a \<le> length t \<and> keyword_at R t a b \<and> ?Q a b"
      by (simp add: keyword_at_def del: upt_Suc)
    then show "\<exists>a b. a \<le> length t \<and> keyword_at R t a b \<and> ?Q a b" by blast
  next
    assume "\<exists>a b. a \<le> length t \<and> keyword_at R t a b \<and> ?Q a b"
    then obtain a b where ab: "a \<le> length t" "keyword_at R t a b" "?Q a b" by blast
    have "a \<in> set [0..<Suc (length t)]" using ab(1) by (simp del: upt_Suc)
    moreover have "b \<in> set (map fst (rmatch R t keyword (a, None)))"
      using ab(2) by (simp add: keyword_at_def)
    ultimately show "list_ex (\<lambda>a. list_ex (?Q a) (map fst (rmatch R t keyword (a, None))))
          [0..<Suc (length t)]"
      unfolding list_ex_iff using ab(3) by blast
  qed
  then show ?thesis by (simp add: near_keyword_def)
qed

lemma in_class_NonDigit: "in_class R NonDigit = (\<lambda>c. \<not> decimal R c)"
  by (rule ext) simp

lemma groupless_move:
  "groupless r \<Longrightarrow> (j, g) \<in> set (rmatch R t r (a, g)) \<Longrightarrow>
     (j, h) \<in> set (rmatch R t r (a, h))"
proof (induction r arbitrary: j a)
  case (Seq r1 r2)
  have g1: "groupless r1" and g2: "groupless r2" using Seq.prems(1) by simp_all
  from Seq.prems(2) obtain k gm where m: "(k, gm) \<in> set (rmatch R t r1 (a, g))"
    and s: "(j, g) \<in> set (rmatch R t r2 (k, gm))"
    by (auto simp: in_rmatch_Seq_pair)
  have gm: "gm = g" using groupless_keeps [OF g1 m] .
  have "(k, h) \<in> set (rmatch R t r1 (a, h))" using Seq.IH(1) [OF g1] m gm by simp
  moreover have "(j, h) \<in> set (rmatch R t r2 (k, h))" using Seq.IH(2) [OF g2] s gm by simp
  ultimately show ?case by (auto simp: in_rmatch_Seq_pair)
next
  case (Alt r1 r2)
  have g1: "groupless r1" and g2: "groupless r2" using Alt.prems(1) by simp_all
  from Alt.prems(2) consider "(j, g) \<in> set (rmatch R t r1 (a, g))"
    | "(j, g) \<in> set (rmatch R t r2 (a, g))"
    by (auto simp: in_rmatch_Alt)
  then show ?case
  proof cases
    case 1
    then show ?thesis using Alt.IH(1) [OF g1] by (simp add: in_rmatch_Alt)
  next
    case 2
    then show ?thesis using Alt.IH(2) [OF g2] by (simp add: in_rmatch_Alt)
  qed
next
  case (Opt r)
  have g1: "groupless r" using Opt.prems(1) by simp
  from Opt.prems(2) consider "(j, g) \<in> set (rmatch R t r (a, g))" | "j = a"
    by (auto simp: in_rmatch_Opt)
  then show ?case
  proof cases
    case 1
    then show ?thesis using Opt.IH [OF g1] by (simp add: in_rmatch_Opt)
  next
    case 2
    then show ?thesis by (simp add: in_rmatch_Opt)
  qed
next
  case Eps
  then show ?case by (simp add: in_rmatch_Eps)
next
  case (Chr c)
  then show ?case by (simp add: in_rmatch_Chr)
next
  case (Rep c lo hi)
  then show ?case by (simp add: in_rmatch_Rep)
next
  case (Group r)
  then show ?case by simp
next
  case (NotBehind c)
  then show ?case by (simp add: in_rmatch_NotBehind)
next
  case (NotAhead c)
  then show ?case by (simp add: in_rmatch_NotAhead)
qed

lemma groupless_indep:
  assumes "groupless r"
  shows "(j, g') \<in> set (rmatch R t r (a, g)) \<longleftrightarrow>
     g' = g \<and> (j, h) \<in> set (rmatch R t r (a, h))"
proof
  assume m: "(j, g') \<in> set (rmatch R t r (a, g))"
  have "g' = g" using groupless_keeps [OF assms m] .
  then show "g' = g \<and> (j, h) \<in> set (rmatch R t r (a, h))"
    using groupless_move [OF assms, of j g R t a h] m by simp
next
  assume "g' = g \<and> (j, h) \<in> set (rmatch R t r (a, h))"
  then show "(j, g') \<in> set (rmatch R t r (a, g))"
    using groupless_move [OF assms, of j h R t a g] by simp
qed

lemma keyword_state:
  "(b, g') \<in> set (rmatch R t keyword (a, g)) \<longleftrightarrow> g' = g \<and> keyword_at R t a b"
proof -
  have "keyword_at R t a b \<longleftrightarrow> (b, None) \<in> set (rmatch R t keyword (a, None))"
  proof
    assume "keyword_at R t a b"
    then obtain x where x: "(b, x) \<in> set (rmatch R t keyword (a, None))"
      by (auto simp: keyword_at_def)
    then have "x = None" by (rule groupless_keeps [OF groupless_keyword])
    then show "(b, None) \<in> set (rmatch R t keyword (a, None))" using x by simp
  next
    assume "(b, None) \<in> set (rmatch R t keyword (a, None))"
    then show "keyword_at R t a b" by (force simp: keyword_at_def)
  qed
  then show ?thesis
    using groupless_indep [OF groupless_keyword, of b g' R t a g None] by simp
qed

lemma gap_state:
  "(i, g') \<in> set (rmatch R t (Rep NonDigit 0 (Some 20)) (b, g)) \<and> i \<le> length t
     \<longleftrightarrow> g' = g \<and> gap R t b i"
proof -
  have "(\<exists>k. i = b + k \<and> k \<le> 20 \<and> k \<le> length t - b
          \<and> list_all (\<lambda>c. \<not> decimal R c) (take k (drop b t))) \<and> i \<le> length t
        \<longleftrightarrow> gap R t b i"
    unfolding gap_def by (rule iffI) (auto intro: exI [of _ "i - b"])
  moreover have "(i, g') \<in> set (rmatch R t (Rep NonDigit 0 (Some 20)) (b, g)) \<longleftrightarrow>
      g' = g \<and> (\<exists>k. i = b + k \<and> k \<le> 20 \<and> k \<le> length t - b
          \<and> list_all (\<lambda>c. \<not> decimal R c) (take k (drop b t)))"
    by (simp add: in_rmatch_Rep span_len_le in_class_NonDigit)
  ultimately show ?thesis by blast
qed

lemma in_keyword_then_digits:
  "(j, g') \<in> set (rmatch R t keyword_then_digits (a, None)) \<longleftrightarrow>
     (\<exists>b i. keyword_at R t a b \<and> gap R t b i \<and> g' = Some (i, j) \<and> i \<le> j
        \<and> isolated_run R t i (j - i))"
proof
  assume "(j, g') \<in> set (rmatch R t keyword_then_digits (a, None))"
  then obtain b gb i gi where k: "(b, gb) \<in> set (rmatch R t keyword (a, None))"
    and r: "(i, gi) \<in> set (rmatch R t (Rep NonDigit 0 (Some 20)) (b, gb))"
    and d: "(j, g') \<in> set (rmatch R t isolated_digits (i, gi))"
    unfolding keyword_then_digits_def by (auto simp: in_rmatch_Seq_pair)
  have iso: "g' = Some (i, j)" "i \<le> j" "isolated_run R t i (j - i)"
    using d by (simp_all add: in_rmatch_isolated)
  then have "i \<le> length t" using isolated_run_bound [of R t i "j - i"] by simp
  then have "gap R t b i" using gap_state [of i gi R t b gb] r by simp
  moreover have "keyword_at R t a b" using k by (simp add: keyword_state)
  ultimately show "\<exists>b i. keyword_at R t a b \<and> gap R t b i \<and> g' = Some (i, j) \<and> i \<le> j
      \<and> isolated_run R t i (j - i)"
    using iso by blast
next
  assume "\<exists>b i. keyword_at R t a b \<and> gap R t b i \<and> g' = Some (i, j) \<and> i \<le> j
      \<and> isolated_run R t i (j - i)"
  then obtain b i where k: "keyword_at R t a b" and g: "gap R t b i"
    and iso: "g' = Some (i, j)" "i \<le> j" "isolated_run R t i (j - i)"
    by blast
  have "(b, None) \<in> set (rmatch R t keyword (a, None))" using k by (simp add: keyword_state)
  moreover have "(i, None) \<in> set (rmatch R t (Rep NonDigit 0 (Some 20)) (b, None))"
    using gap_state [of i None R t b None] g by simp
  moreover have "(j, g') \<in> set (rmatch R t isolated_digits (i, None))"
    using iso by (simp add: in_rmatch_isolated)
  ultimately show "(j, g') \<in> set (rmatch R t keyword_then_digits (a, None))"
    unfolding keyword_then_digits_def by (auto simp: in_rmatch_Seq_pair)
qed

lemma in_digits_then_keyword:
  "(j, g') \<in> set (rmatch R t digits_then_keyword (i, None)) \<longleftrightarrow>
     (\<exists>e a. i \<le> e \<and> isolated_run R t i (e - i) \<and> gap R t e a \<and> keyword_at R t a j
        \<and> g' = Some (i, e))"
proof
  assume "(j, g') \<in> set (rmatch R t digits_then_keyword (i, None))"
  then obtain e ge a ga where d: "(e, ge) \<in> set (rmatch R t isolated_digits (i, None))"
    and r: "(a, ga) \<in> set (rmatch R t (Rep NonDigit 0 (Some 20)) (e, ge))"
    and k: "(j, g') \<in> set (rmatch R t keyword (a, ga))"
    unfolding digits_then_keyword_def by (auto simp: in_rmatch_Seq_pair)
  have iso: "ge = Some (i, e)" "i \<le> e" "isolated_run R t i (e - i)"
    using d by (simp_all add: in_rmatch_isolated)
  have ga: "ga = ge" using r by (simp add: in_rmatch_Rep)
  have kw: "g' = ga" "keyword_at R t a j" using k by (simp_all add: keyword_state)
  have "e \<le> length t" using isolated_run_bound [OF iso(3)] iso(2) by simp
  have "a \<le> length t"
  proof -
    obtain m where m: "a = e + m" "m \<le> span_len R NonDigit (Some 20) (drop e t)"
      using r by (auto simp: in_rmatch_Rep)
    then have "m \<le> length t - e" by (simp add: span_len_le)
    then show ?thesis using m(1) \<open>e \<le> length t\<close> by simp
  qed
  then have "gap R t e a" using gap_state [of a ga R t e ge] r by simp
  then show "\<exists>e a. i \<le> e \<and> isolated_run R t i (e - i) \<and> gap R t e a \<and> keyword_at R t a j
      \<and> g' = Some (i, e)"
    using iso ga kw by blast
next
  assume "\<exists>e a. i \<le> e \<and> isolated_run R t i (e - i) \<and> gap R t e a \<and> keyword_at R t a j
      \<and> g' = Some (i, e)"
  then obtain e a where iso: "i \<le> e" "isolated_run R t i (e - i)" and g: "gap R t e a"
    and k: "keyword_at R t a j" and gg: "g' = Some (i, e)"
    by blast
  have "(e, Some (i, e)) \<in> set (rmatch R t isolated_digits (i, None))"
    using iso by (simp add: in_rmatch_isolated)
  moreover have "(a, Some (i, e)) \<in> set (rmatch R t (Rep NonDigit 0 (Some 20)) (e, Some (i, e)))"
    using gap_state [of a "Some (i, e)" R t e "Some (i, e)"] g by simp
  moreover have "(j, g') \<in> set (rmatch R t keyword (a, Some (i, e)))"
    using k gg by (simp add: keyword_state)
  ultimately show "(j, g') \<in> set (rmatch R t digits_then_keyword (i, None))"
    unfolding digits_then_keyword_def by (auto simp: in_rmatch_Seq_pair)
qed


lemma re_search_start:
  assumes "re_search R r t = Some s"
  shows "\<exists>a\<le>length t. s \<in> set (rmatch R t r (a, None))"
proof -
  from scan_Some [of R r t "[0..<Suc (length t)]" s] assms
  obtain a where "a \<in> set [0..<Suc (length t)]" "s \<in> set (rmatch R t r (a, None))"
    by (auto simp: re_search_def simp del: upt_Suc)
  then have "a \<le> length t \<and> s \<in> set (rmatch R t r (a, None))"
    by (simp del: upt_Suc)
  then show ?thesis by blast
qed

lemma re_search_found:
  assumes "a \<le> length t" and "s \<in> set (rmatch R t r (a, None))"
  shows "re_search R r t \<noteq> None"
proof
  assume "re_search R r t = None"
  then have "\<forall>k\<in>set [0..<Suc (length t)]. rmatch R t r (k, None) = []"
    by (simp only: re_search_def scan_None)
  moreover have "a \<in> set [0..<Suc (length t)]" using assms(1) by (simp del: upt_Suc)
  ultimately have "rmatch R t r (a, None) = []" by blast
  then show False using assms(2) by simp
qed

lemma in_near_candidates: "(i, n) \<in> set (near_candidates R t) \<longleftrightarrow> near_keyword R t i n"
  by (auto simp: near_candidates_def in_candidates near_keyword_def)

lemma keyword_then_digits_near:
  assumes "re_search R keyword_then_digits t = Some s"
  shows "\<exists>i j. s = (j, Some (i, j)) \<and> i \<le> j \<and> near_keyword R t i (j - i)"
proof -
  from re_search_start [OF assms] obtain a where a: "a \<le> length t"
    and m: "s \<in> set (rmatch R t keyword_then_digits (a, None))"
    by blast
  obtain j g where s: "s = (j, g)" by (cases s)
  from m s obtain b i where k: "keyword_at R t a b" "gap R t b i" "g = Some (i, j)" "i \<le> j"
    "isolated_run R t i (j - i)"
    by (auto simp: in_keyword_then_digits)
  have "near_keyword R t i (j - i)"
    using a k by (auto simp: near_keyword_iff)
  then show ?thesis using s k by blast
qed

lemma digits_then_keyword_near:
  assumes "re_search R digits_then_keyword t = Some s"
  shows "\<exists>i e. snd s = Some (i, e) \<and> i \<le> e \<and> near_keyword R t i (e - i)"
proof -
  from re_search_start [OF assms] obtain i where
    m: "s \<in> set (rmatch R t digits_then_keyword (i, None))"
    by blast
  obtain j g where s: "s = (j, g)" by (cases s)
  from m s obtain e a where k: "i \<le> e" "isolated_run R t i (e - i)" "gap R t e a"
    "keyword_at R t a j" "g = Some (i, e)"
    by (auto simp: in_digits_then_keyword)
  have "a \<le> length t" using k(3) by (simp add: gap_def)
  moreover have "i + (e - i) = e" using k(1) by simp
  ultimately have "near_keyword R t i (e - i)"
    using k by (auto simp: near_keyword_iff)
  then show ?thesis using s k by auto
qed

lemma near_keyword_found:
  assumes "near_keyword R t i n"
  shows "re_search R keyword_then_digits t \<noteq> None
       \<or> re_search R digits_then_keyword t \<noteq> None"
proof -
  from assms obtain a b where iso: "isolated_run R t i n" and a: "a \<le> length t"
    and k: "keyword_at R t a b" and g: "gap R t b i \<or> gap R t (i + n) a"
    by (auto simp: near_keyword_iff)
  from g show ?thesis
  proof
    assume "gap R t b i"
    then have "(i + n, Some (i, i + n)) \<in> set (rmatch R t keyword_then_digits (a, None))"
      using k iso by (auto simp: in_keyword_then_digits)
    then show ?thesis using re_search_found [OF a] by blast
  next
    assume ga: "gap R t (i + n) a"
    have "i \<le> i + n \<and> isolated_run R t i (i + n - i) \<and> gap R t (i + n) a
        \<and> keyword_at R t a b \<and> Some (i, i + n) = Some (i, i + n)"
      using k iso ga by simp
    then have "(b, Some (i, i + n)) \<in> set (rmatch R t digits_then_keyword (i, None))"
      unfolding in_digits_then_keyword by blast
    moreover have "i \<le> length t" using isolated_run_bound [OF iso] by simp
    ultimately show ?thesis using re_search_found by blast
  qed
qed

lemma only_near_candidate:
  assumes one: "near_candidates R (strip R text0) = [(i, n)]"
  shows "selected R text0 = Some (lead R text0 + i, n)
       \<and> extract_code R text0 = take n (drop i (strip R text0))"
proof -
  let ?t = "strip R text0"
  have uniq: "near_keyword R ?t j m \<longleftrightarrow> j = i \<and> m = n" for j m
    using in_near_candidates [of j m R ?t] one by simp
  then have near: "near_keyword R ?t i n" by simp
  have "\<exists>s. find_match R ?t = Some s \<and> snd s = Some (i, i + n)"
  proof (cases "re_search R keyword_then_digits ?t")
    case (Some s)
    from keyword_then_digits_near [OF Some] obtain i' j where
      s: "s = (j, Some (i', j))" "i' \<le> j" "near_keyword R ?t i' (j - i')"
      by blast
    have "i' = i \<and> j - i' = n" using uniq [of i' "j - i'"] s(3) by blast
    then have "i' = i \<and> j = i + n" using s(2) by auto
    then have "snd s = Some (i, i + n)" using s(1) by simp
    then show ?thesis using Some by (simp add: find_match_def)
  next
    case None
    then have "re_search R digits_then_keyword ?t \<noteq> None"
      using near_keyword_found [OF near] by simp
    then obtain s where s: "re_search R digits_then_keyword ?t = Some s" by blast
    from digits_then_keyword_near [OF s] obtain i' e where
      e: "snd s = Some (i', e)" "i' \<le> e" "near_keyword R ?t i' (e - i')"
      by blast
    have "i' = i \<and> e - i' = n" using uniq [of i' "e - i'"] e(3) by blast
    then have "i' = i \<and> e = i + n" using e(2) by auto
    then have "snd s = Some (i, i + n)" using e(1) by simp
    then show ?thesis using None s by (simp add: find_match_def)
  qed
  then obtain s where s: "find_match R ?t = Some s" "snd s = Some (i, i + n)" by blast
  have "selected R text0 = Some (lead R text0 + i, n)"
    using s by (simp add: selected_def)
  moreover have "extract_code R text0 = take n (drop i ?t)"
    using extract_code_Some [OF s(1)] s(2) by (simp add: group1_def)
  ultimately show ?thesis by simp
qed

subsection \<open>What \<open>extract_code\<close> returns\<close>

lemma extract_code_blank: "list_all (whitespace R) text0 \<Longrightarrow> extract_code R text0 = []"
  using strip_blank [of R text0] by (simp add: extract_code_def)

lemma extract_code_plain:
  assumes none: "digit_runs R text0 = []"
  shows "extract_code R text0 = strip R text0"
proof -
  have "\<not> isolated_run R (strip R text0) i n" for i n
  proof
    assume iso: "isolated_run R (strip R text0) i n"
    then have "digit_run R text0 (lead R text0 + i) n" and "4 \<le> n" and "n \<le> 8"
      by (simp_all add: isolated_run_def digit_run_strip)
    then have "(lead R text0 + i, n) \<in> set (digit_runs R text0)"
      by (simp add: in_digit_runs)
    then show False using none by simp
  qed
  then have "find_match R (strip R text0) = None" by (simp add: find_match_None)
  then show ?thesis by (rule extract_code_None)
qed

lemma no_candidate:
  assumes dis: "disjoint_classes R" and none: "candidates R text0 = []"
  shows "selected R text0 = None \<and> extract_code R text0 = strip R text0"
proof -
  have "\<not> isolated_run R (strip R text0) i n" for i n
  proof
    assume "isolated_run R (strip R text0) i n"
    then have "isolated_run R text0 (lead R text0 + i) n"
      by (rule isolated_run_unstrip [OF dis])
    then have "(lead R text0 + i, n) \<in> set (candidates R text0)"
      by (simp add: in_candidates)
    then show False using none by simp
  qed
  then have nm: "find_match R (strip R text0) = None" by (simp add: find_match_None)
  then have "selected R text0 = None" by (simp add: selected_def)
  then show ?thesis using extract_code_None [OF nm] by simp
qed

lemma only_candidate:
  assumes dis: "disjoint_classes R" and one: "candidates R text0 = [(i, n)]"
  shows "selected R text0 = Some (i, n) \<and> extract_code R text0 = take n (drop i text0)"
proof -
  have mem: "isolated_run R text0 j m \<longleftrightarrow> j = i \<and> m = n" for j m
    using in_candidates [of j m R text0] one by simp
  then have iso: "isolated_run R text0 i n" by simp
  have "isolated_run R (strip R text0) (i - lead R text0) n"
    using isolated_run_strip [OF dis iso] by simp
  then have "find_match R (strip R text0) \<noteq> None" by (rule find_match_complete)
  then obtain st where st: "find_match R (strip R text0) = Some st" by blast
  then have "captures R (strip R text0) st" by (rule find_match_sound)
  then obtain a b where ab: "snd st = Some (a, b)" "a \<le> b"
    "isolated_run R (strip R text0) a (b - a)"
    by (auto simp: captures_def)
  have "isolated_run R text0 (lead R text0 + a) (b - a)"
    using isolated_run_unstrip [OF dis ab(3)] .
  then have "lead R text0 + a = i \<and> b - a = n" using mem by simp
  then have sel: "selected R text0 = Some (i, n)" using st ab(1) by (simp add: selected_def)
  then show ?thesis using extract_selected [of R text0] by simp
qed

lemma extract_code_numeric_or_plain:
  "purely_numeric R (extract_code R text0) \<or> extract_code R text0 = strip R text0"
proof (cases "find_match R (strip R text0)")
  case None
  then show ?thesis by (simp add: extract_code_None)
next
  case (Some st)
  then have "captures R (strip R text0) st" by (rule find_match_sound)
  then have "purely_numeric R (group1 (strip R text0) st)" by (rule group1_numeric)
  then show ?thesis using extract_code_Some [OF Some] by simp
qed

subsection \<open>The concrete runtime\<close>

lemma py_fields [simp]:
  "decimal py = py_decimal" "whitespace py = py_whitespace" "caseless py = py_caseless"
  "loads py = sample_loads"
  by (simp_all add: py_def)

lemma py_disjoint: "disjoint_classes py"
  by (auto simp: disjoint_classes_def py_whitespace_def py_decimal_def nd_starts_def)

lemma py_decimal_low: "c < 1632 \<Longrightarrow> py_decimal c \<longleftrightarrow> 48 \<le> c \<and> c \<le> 57"
  by (auto simp: py_decimal_def nd_starts_def)

lemma frame_short_text: "frame_text py frame_short = asc ''Security code is 123.''"
  by (simp add: frame_text_def sample_loads_def py_str_def)

lemma frame_no_text_text: "frame_text py frame_no_text = []"
  by (simp add: frame_text_def sample_loads_def py_str_def frame_short_def frame_no_text_def
        asc_def)

lemma frame_number_text: "frame_text py frame_number = frame_number"
  by (simp add: frame_text_def sample_loads_def py_str_def frame_short_def frame_no_text_def
        frame_number_def asc_def)

lemma short_candidates: "candidates py (asc ''Security code is 123.'') = []"
  by (simp add: asc_def candidates_def spans_def isolated_run_def digit_run_def py_decimal_low)

lemma short_digit_runs: "digit_runs py (asc ''Security code is 123.'') = []"
  by (simp add: asc_def digit_runs_def spans_def digit_run_def py_decimal_low)

lemma short_strip: "strip py (asc ''Security code is 123.'') = asc ''Security code is 123.''"
  by (simp add: asc_def strip_def py_whitespace_def)

lemma short_extract:
  "extract_code py (asc ''Security code is 123.'') = asc ''Security code is 123.''"
  using extract_code_plain [OF short_digit_runs] by (simp add: short_strip)

lemma sample_strip:
  "strip py (asc ''Order 20260215 was sent to you today. OTP 4831'')
     = asc ''Order 20260215 was sent to you today. OTP 4831''"
  by (simp add: asc_def strip_def py_whitespace_def)

lemma sample_candidates:
  "candidates py (asc ''Order 20260215 was sent to you today. OTP 4831'') = [(6, 8), (42, 4)]"
  by (simp add: asc_def candidates_def spans_def isolated_run_def digit_run_def py_decimal_low)


lemma sample_near:
  "near_candidates py (asc ''Order 20260215 was sent to you today. OTP 4831'') = [(42, 4)]"
  unfolding near_candidates_def sample_candidates
  by (simp add: asc_def near_keyword_def isolated_run_def digit_run_def gap_def
        py_decimal_low rmatch.simps keyword_def word_def alts_def span_len_def
        py_caseless_def ascii_lower_def py_whitespace_def)

section \<open>The supervisor: C2, C3 and C4\<close>

text \<open>
  C2. On every run of the supervisor: (1) the effects follow the backoff rule, that is,
  each write of \<open>error\<close> or \<open>disconnected\<close> is followed at once by a delay, the
  \<open>k\<close>-th delay in a row since the start or since the last write of \<open>connected\<close> is
  \<open>min (2 ^ k) 30\<close> seconds, and there is no other delay; (2) whenever the status is
  \<open>connected\<close> the retry counter is 1; (3) with the stop signal unset, a connection
  attempt that fails writes \<open>error\<close> and sleeps \<open>min (2 ^ k) 30\<close> seconds, \<open>k\<close> the
  number of delays in a row so far; (4) with the stop signal unset, a connection that
  ends, by an exception or by a normal close, writes \<open>error\<close> or \<open>disconnected\<close> and
  sleeps 1 second; (5) the return from a delay doubles the counter up to 30;
  (6) \<open>n\<close> failed attempts in a row from the start sleep 1, 2, 4, 8, 16, 30, 30, ...
  seconds; (7) after a successful connection the sequence starts again at 1.
\<close>

theorem retry_backoff:
  "backoff_ok 0 (trace (run R es))
   \<and> (status (run R es) = Connected \<longrightarrow> retry (run R es) = 1)
   \<and> (status (run R es) = Connecting \<and> \<not> stop_event (run R es) \<longrightarrow>
        trace (run R (es @ [ConnectFail])) =
          trace (run R es)
            @ [SetStatus Error, Sleep (min (2 ^ failures 0 (trace (run R es))) 30)])
   \<and> (status (run R es) = Connected \<and> \<not> stop_event (run R es) \<longrightarrow>
        trace (run R (es @ [Fault])) = trace (run R es) @ [SetStatus Error, Sleep 1]
        \<and> trace (run R (es @ [Close])) = trace (run R es) @ [SetStatus Disconnected, Sleep 1])
   \<and> (phase (run R es) = Sleeping \<longrightarrow>
        retry (run R (es @ [Wake])) = min (retry (run R es) * 2) 30
        \<and> retry (run R (es @ [Wake])) = min (2 ^ failures 0 (trace (run R es))) 30)
   \<and> sleeps (run R (Start # failing n)) = map (\<lambda>k. min (2 ^ k) 30) [0..<n]
   \<and> sleeps (run R (Start # failing n @ [ConnectOk, Close, Wake] @ failing m)) =
        map (\<lambda>k. min (2 ^ k) 30) [0..<n] @ map (\<lambda>k. min (2 ^ k) 30) [0..<Suc m]"
proof -
  let ?s = "run R es"
  have inv: "backoff_inv ?s" by (rule backoff_inv_run)
  have coh: "coherent ?s" by (rule coherent_run)
  have c1: "backoff_ok 0 (trace ?s)" using inv by (simp add: backoff_inv_def)
  have rec: "phase ?s = Receiving" if "status ?s = Connected"
    using coh that by (cases "phase ?s") (auto simp: coherent_def)
  have awc: "phase ?s = AwaitConnect" if "status ?s = Connecting"
    using coh that by (cases "phase ?s") (auto simp: coherent_def)
  have c2: "retry ?s = 1" if "status ?s = Connected"
    using inv rec [OF that] by (simp add: backoff_inv_def)
  have c3: "trace (run R (es @ [ConnectFail])) =
      trace ?s @ [SetStatus Error, Sleep (min (2 ^ failures 0 (trace ?s)) 30)]"
    if "status ?s = Connecting" "\<not> stop_event ?s"
    using inv awc [OF that(1)] that(2) by (simp add: backoff_inv_def run_snoc step_defs)
  have c4: "trace (run R (es @ [Fault])) = trace ?s @ [SetStatus Error, Sleep 1]
      \<and> trace (run R (es @ [Close])) = trace ?s @ [SetStatus Disconnected, Sleep 1]"
    if "status ?s = Connected" "\<not> stop_event ?s"
    using c2 [OF that(1)] rec [OF that(1)] that(2) by (simp add: run_snoc step_defs)
  have c5: "retry (run R (es @ [Wake])) = min (retry ?s * 2) 30
      \<and> retry (run R (es @ [Wake])) = min (2 ^ failures 0 (trace ?s)) 30"
    if sl: "phase ?s = Sleeping"
  proof -
    have f: "0 < failures 0 (trace ?s)"
      and r: "retry ?s = min (2 ^ (failures 0 (trace ?s) - 1)) 30"
      using inv sl by (simp_all add: backoff_inv_def)
    have "retry (run R (es @ [Wake])) = min (retry ?s * 2) 30"
      using sl by (simp add: run_snoc step_defs)
    moreover have "min (retry ?s * 2) 30 = min (2 ^ Suc (failures 0 (trace ?s) - 1)) 30"
      using r by (simp only: double_capped)
    moreover have "Suc (failures 0 (trace ?s) - 1) = failures 0 (trace ?s)" using f by simp
    ultimately show ?thesis by simp
  qed
  let ?f = "\<lambda>k::nat. min (2 ^ k) (30::int)"
  let ?s1 = "step R initial Start"
  have s1: "phase ?s1 = AwaitConnect" "\<not> stop_event ?s1" "retry ?s1 = min (2 ^ 0) 30"
    "sleeps ?s1 = []"
    by (simp_all add: initial_def step_defs sleeps_def)
  note fl = failing_foldl [OF s1(1) s1(2) s1(3), of R n]
  have c6: "sleeps (run R (Start # failing n)) = map ?f [0..<n]"
    using fl s1(4) by (simp add: run_Cons)
  let ?s2 = "foldl (step R) ?s1 (failing n)"
  let ?s3 = "foldl (step R) ?s2 [ConnectOk, Close, Wake]"
  have s3: "phase ?s3 = AwaitConnect" "\<not> stop_event ?s3" "retry ?s3 = min (2 ^ 1) 30"
    "sleeps ?s3 = sleeps ?s2 @ [1]"
    using fl by (simp_all add: step_defs sleeps_def)
  note fl3 = failing_foldl [OF s3(1) s3(2) s3(3), of R m]
  have "run R (Start # failing n @ [ConnectOk, Close, Wake] @ failing m)
        = foldl (step R) ?s3 (failing m)"
    by (simp add: run_Cons)
  moreover have "[0..<Suc m] = 0 # [1..<1 + m]" by (simp add: upt_conv_Cons del: upt_Suc)
  ultimately have c7: "sleeps (run R (Start # failing n @ [ConnectOk, Close, Wake] @ failing m))
        = map ?f [0..<n] @ map ?f [0..<Suc m]"
    using fl3 s3(4) fl s1(4) by (simp del: upt_Suc)
  show ?thesis using c1 c2 c3 c4 c5 c6 c7 by blast
qed

theorem retry_backoff_witness:
  "sleeps (run py (Start # failing 7)) = [1, 2, 4, 8, 16, 30, 30]
   \<and> sleeps (run py (Start # failing 2 @ [ConnectOk, Close, Wake] @ failing 2)) = [1, 2, 1, 2, 4]
   \<and> status (run py [Start, ConnectFail, Wake, ConnectOk]) = Connected
   \<and> retry (run py [Start, ConnectFail, Wake, ConnectOk]) = 1
   \<and> trace (run py ([Start, ConnectFail, Wake, ConnectOk] @ [Close])) =
        trace (run py [Start, ConnectFail, Wake, ConnectOk]) @ [SetStatus Disconnected, Sleep 1]
   \<and> status (run py [Start]) = Connecting
   \<and> trace (run py ([Start] @ [ConnectFail])) =
        [SetStatus Connecting, Connect, SetStatus Error, Sleep 1]
   \<and> phase (run py [Start, ConnectFail]) = Sleeping
   \<and> retry (run py ([Start, ConnectFail] @ [Wake])) = 2"
proof -
  let ?es = "[Start, ConnectFail, Wake, ConnectOk]"
  have a: "status (run py ?es) = Connected"
    by (simp add: run_def initial_def step_defs)
  have na: "\<not> stop_event (run py ?es)"
    by (simp add: run_def initial_def step_defs)
  have b: "status (run py [Start]) = Connecting" "\<not> stop_event (run py [Start])"
    "trace (run py [Start]) = [SetStatus Connecting, Connect]"
    by (simp_all add: run_def initial_def step_defs)
  have c: "phase (run py [Start, ConnectFail]) = Sleeping"
    "retry (run py [Start, ConnectFail]) = 1"
    by (simp_all add: run_def initial_def step_defs)
  have l7: "map (\<lambda>k. min (2 ^ k) (30::int)) [0..<7] = [1, 2, 4, 8, 16, 30, 30]"
    by (simp add: upt_conv_Cons del: upt_Suc)
  have l2: "map (\<lambda>k. min (2 ^ k) (30::int)) [0..<2] = [1, 2]"
    "map (\<lambda>k. min (2 ^ k) (30::int)) [0..<Suc 2] = [1, 2, 4]"
    by (simp_all add: upt_conv_Cons del: upt_Suc)
  have w1: "sleeps (run py (Start # failing 7)) = [1, 2, 4, 8, 16, 30, 30]"
    using retry_backoff [of py "[]" 7 0] l7 by simp
  have w2: "sleeps (run py (Start # failing 2 @ [ConnectOk, Close, Wake] @ failing 2))
      = [1, 2, 1, 2, 4]"
    using retry_backoff [of py "[]" 2 2] l2 by simp
  have w3: "retry (run py ?es) = 1"
    and w4: "trace (run py (?es @ [Close])) = trace (run py ?es) @ [SetStatus Disconnected, Sleep 1]"
    using retry_backoff [of py ?es 0 0] a na by blast+
  have w5: "trace (run py ([Start] @ [ConnectFail])) =
      [SetStatus Connecting, Connect, SetStatus Error, Sleep 1]"
    using retry_backoff [of py "[Start]" 0 0] b by simp
  have w6: "retry (run py ([Start, ConnectFail] @ [Wake])) = 2"
    using retry_backoff [of py "[Start, ConnectFail]" 0 0] c by simp
  from w1 w2 a w3 w4 b(1) w5 c(1) w6 show ?thesis by blast
qed

text \<open>
  C3. In every state the supervisor can reach in which the status is \<open>connected\<close> and
  the stop signal is not set, the normal end of the receive loop writes the status
  \<open>disconnected\<close> (and not \<open>error\<close>), and an exception of the receive loop writes the
  status \<open>error\<close> (and not \<open>disconnected\<close>).
\<close>

theorem connected_close_or_fault:
  assumes "status (run R es) = Connected" and "\<not> stop_event (run R es)"
  shows "status (run R (es @ [Close])) = Disconnected
       \<and> last (trace (run R (es @ [Close]))) = Sleep (retry (run R es))
       \<and> status (run R (es @ [Fault])) = Error
       \<and> last (trace (run R (es @ [Fault]))) = Sleep (retry (run R es))"
proof -
  have "coherent (run R es)" by (rule coherent_run)
  then have "phase (run R es) = Receiving"
    using assms(1) by (cases "phase (run R es)") (auto simp: coherent_def)
  then show ?thesis
    using assms(2) by (simp add: run_snoc step_defs)
qed

theorem connected_close_or_fault_witness:
  "status (run py [Start, ConnectOk]) = Connected
   \<and> \<not> stop_event (run py [Start, ConnectOk])
   \<and> status (run py ([Start, ConnectOk] @ [Close])) = Disconnected
   \<and> status (run py ([Start, ConnectOk] @ [Fault])) = Error"
proof -
  have a: "status (run py [Start, ConnectOk]) = Connected"
    by (simp add: run_def initial_def step_defs)
  have b: "\<not> stop_event (run py [Start, ConnectOk])"
    by (simp add: run_def initial_def step_defs)
  from connected_close_or_fault [OF a b] a b show ?thesis by blast
qed

text \<open>
  C4. The supervisor loop is left only when the stop signal is set: (1) when \<open>run\<close> has
  finished, a stop event has occurred, the status is \<open>stopped\<close>, the write of
  \<open>stopped\<close> is the last effect, and no later event changes anything; (2) failures
  alone never end the loop; (3) once the stop signal is set, no further connection
  attempt is started; (4) once the stop signal is set, the next event the coroutine is
  waiting for, other than the success of a connection attempt in flight, makes it
  observe the signal: \<open>run\<close> finishes and its last effect is the write of \<open>stopped\<close>,
  whatever the status was (\<open>idle\<close>, \<open>connecting\<close>, \<open>connected\<close>, \<open>disconnected\<close>,
  \<open>error\<close>); (5) when the attempt in flight succeeds, the event after it does so.
\<close>

theorem exit_only_on_stop:
  "(phase (run R es) = Finished \<longrightarrow>
      Stop \<in> set es \<and> status (run R es) = Stopped
      \<and> last (trace (run R es)) = SetStatus Stopped \<and> run R (es @ es') = run R es)
   \<and> (Stop \<notin> set es \<longrightarrow> phase (run R es) \<noteq> Finished)
   \<and> (stop_event (run R es) \<longrightarrow> attempts (run R (es @ es')) = attempts (run R es))
   \<and> (stop_event (run R es) \<and> awaited (phase (run R es)) e \<and> e \<noteq> ConnectOk \<longrightarrow>
        phase (run R (es @ [e])) = Finished \<and> status (run R (es @ [e])) = Stopped
        \<and> trace (run R (es @ [e])) = trace (run R es) @ [SetStatus Stopped])
   \<and> (stop_event (run R es) \<and> phase (run R es) = AwaitConnect \<and> awaited Receiving e \<longrightarrow>
        phase (run R (es @ [ConnectOk, e])) = Finished
        \<and> status (run R (es @ [ConnectOk, e])) = Stopped
        \<and> trace (run R (es @ [ConnectOk, e])) =
            trace (run R es) @ [SetStatus Connected, SetStatus Stopped])"
proof -
  let ?s = "run R es"
  have coh: "coherent ?s" by (rule coherent_run)
  have fin: "stop_event ?s \<and> status ?s = Stopped \<and> last (trace ?s) = SetStatus Stopped"
    if "phase ?s = Finished"
    using coh that by (simp add: coherent_def)
  have frozen: "run R (es @ es') = ?s" if "phase ?s = Finished"
    using coh that by (simp add: run_append finished_foldl)
  have att: "attempts (run R (es @ es')) = attempts ?s" if "stop_event ?s"
    using that by (simp add: run_append attempts_foldl)
  have obs: "phase (run R (es @ [e])) = Finished \<and> status (run R (es @ [e])) = Stopped
      \<and> trace (run R (es @ [e])) = trace ?s @ [SetStatus Stopped]"
    if "stop_event ?s" "awaited (phase ?s) e" "e \<noteq> ConnectOk"
    using that by (cases e; cases "phase ?s") (simp_all add: run_snoc step_defs)
  have obs2: "phase (run R (es @ [ConnectOk, e])) = Finished
      \<and> status (run R (es @ [ConnectOk, e])) = Stopped
      \<and> trace (run R (es @ [ConnectOk, e])) =
          trace ?s @ [SetStatus Connected, SetStatus Stopped]"
    if "stop_event ?s" "phase ?s = AwaitConnect" "awaited Receiving e"
    using that by (cases e) (simp_all add: run_append step_defs)
  show ?thesis using fin frozen att obs obs2 stop_event_run [of R es] by blast
qed

theorem exit_only_on_stop_witness:
  "phase (run py [Start, ConnectFail, Stop, Wake]) = Finished
   \<and> status (run py [Start, ConnectFail, Stop, Wake]) = Stopped
   \<and> run py ([Start, ConnectFail, Stop, Wake] @ [Start, ConnectOk, Close]) =
       run py [Start, ConnectFail, Stop, Wake]
   \<and> attempts (run py ([Start, ConnectFail, Stop, Wake] @ [Start, ConnectOk, Close])) = 1
   \<and> phase (run py [Start, ConnectFail, Wake, ConnectFail, Wake]) \<noteq> Finished
   \<and> status (run py [Start, ConnectOk, Stop]) = Connected
   \<and> status (run py ([Start, ConnectOk, Stop] @ [Close])) = Stopped
   \<and> status (run py ([Start, ConnectOk, Stop] @ [Fault])) = Stopped
   \<and> status (run py ([Start, Stop] @ [ConnectFail])) = Stopped
   \<and> status (run py ([Start, Stop] @ [ConnectOk, Close])) = Stopped"
proof -
  let ?es = "[Start, ConnectFail, Stop, Wake]"
  have a: "phase (run py ?es) = Finished"
    by (simp add: run_def initial_def step_defs)
  have b: "attempts (run py ?es) = 1"
    by (simp add: run_def initial_def step_defs attempts_def)
  have c: "Stop \<notin> set [Start, ConnectFail, Wake, ConnectFail, Wake]" by simp
  have d: "phase (run py [Start, ConnectFail, Wake, ConnectFail, Wake]) \<noteq> Finished"
    using exit_only_on_stop [of py "[Start, ConnectFail, Wake, ConnectFail, Wake]" "[]"] c
    by blast
  have e: "status (run py [Start, ConnectOk, Stop]) = Connected"
    "stop_event (run py [Start, ConnectOk, Stop])"
    "phase (run py [Start, ConnectOk, Stop]) = Receiving"
    by (simp_all add: run_def initial_def step_defs)
  have f: "stop_event (run py [Start, Stop])" "phase (run py [Start, Stop]) = AwaitConnect"
    by (simp_all add: run_def initial_def step_defs)
  have g1: "status (run py ([Start, ConnectOk, Stop] @ [Close])) = Stopped"
    using exit_only_on_stop [of py "[Start, ConnectOk, Stop]" "[]" Close] e by simp
  have g2: "status (run py ([Start, ConnectOk, Stop] @ [Fault])) = Stopped"
    using exit_only_on_stop [of py "[Start, ConnectOk, Stop]" "[]" Fault] e by simp
  have g3: "status (run py ([Start, Stop] @ [ConnectFail])) = Stopped"
    using exit_only_on_stop [of py "[Start, Stop]" "[]" ConnectFail] f by simp
  have g4: "status (run py ([Start, Stop] @ [ConnectOk, Close])) = Stopped"
    using exit_only_on_stop [of py "[Start, Stop]" "[]" Close] f by simp
  from exit_only_on_stop [of py ?es "[Start, ConnectOk, Close]"] a b d e(1) g1 g2 g3 g4
  show ?thesis by simp
qed

section \<open>The receive loop and \<open>extract_code\<close>: C1 and C5 to C10\<close>

text \<open>
  C1, as amended. The receive loop forwards every non-empty result of \<open>extract_code\<close>
  to the clipboard; its only test is \<open>if code:\<close>. For an inbound frame whose text has
  no isolated run of 4 to 8 digits, received while connected with the stop signal
  unset, the result is the trimmed text: when that is not empty it is written to the
  clipboard, and nothing is written only when it is empty.
\<close>

theorem text_without_code_is_copied:
  assumes "disjoint_classes R"
    and "status (run R es) = Connected" and "\<not> stop_event (run R es)"
    and "candidates R (frame_text R msg) = []"
  shows "trace (run R (es @ [Frame msg True])) =
           trace (run R es)
             @ (if strip R (frame_text R msg) = [] then []
                else [Copy (strip R (frame_text R msg))])"
proof -
  have "coherent (run R es)" by (rule coherent_run)
  then have "phase (run R es) = Receiving"
    using assms(2) by (cases "phase (run R es)") (auto simp: coherent_def)
  moreover have "extract_code R (frame_text R msg) = strip R (frame_text R msg)"
    using no_candidate [OF assms(1) assms(4)] by simp
  ultimately show ?thesis using assms(3) by (simp add: run_snoc step_defs)
qed

theorem text_without_code_is_copied_witness:
  "disjoint_classes py
   \<and> status (run py [Start, ConnectOk]) = Connected
   \<and> \<not> stop_event (run py [Start, ConnectOk])
   \<and> candidates py (frame_text py frame_short) = []
   \<and> trace (run py ([Start, ConnectOk] @ [Frame frame_short True])) =
       trace (run py [Start, ConnectOk]) @ [Copy (asc ''Security code is 123.'')]"
proof -
  have a: "status (run py [Start, ConnectOk]) = Connected"
    and b: "\<not> stop_event (run py [Start, ConnectOk])"
    by (simp_all add: run_def initial_def step_defs)
  have c: "candidates py (frame_text py frame_short) = []"
    by (simp add: frame_short_text short_candidates)
  have d: "strip py (frame_text py frame_short) = asc ''Security code is 123.''"
    by (simp add: frame_short_text short_strip)
  have e: "asc ''Security code is 123.'' \<noteq> []" by (simp add: asc_def)
  from text_without_code_is_copied [OF py_disjoint a b c] d e
  have "trace (run py ([Start, ConnectOk] @ [Frame frame_short True])) =
       trace (run py [Start, ConnectOk]) @ [Copy (asc ''Security code is 123.'')]"
    by simp
  with py_disjoint a b c show ?thesis by blast
qed

text \<open>
  C1 as stated fails: the frame \<^verbatim>\<open>{"text": "Security code is 123."}\<close>, received while
  connected, is followed by one clipboard write, of the text \<open>Security code is 123.\<close>
\<close>

theorem short_text_is_copied:
  "copies (run py [Start, ConnectOk, Frame frame_short True]) = [asc ''Security code is 123.'']"
proof -
  have "asc ''Security code is 123.'' \<noteq> []" by (simp add: asc_def)
  then show ?thesis
    by (simp add: run_def initial_def step_defs copies_def frame_short_text short_extract)
qed

text \<open>
  C5, as amended. The whole frame is the text passed to \<open>extract_code\<close> exactly when
  \<open>json.loads\<close> raises on it or returns a value that is not an object. When it
  returns an object without the key \<open>text\<close> the text is empty (and nothing is written);
  when the value under \<open>text\<close> is a string the text is that string, and otherwise it is
  \<open>str\<close> of the value. No frame interrupts the receive loop by a parse error: while
  connected with the stop signal unset, after any frame (the clipboard not failing) the
  status is still \<open>connected\<close>, the loop still receives, and the only effect is the
  clipboard write of a non-empty result.
\<close>

theorem frame_text_by_shape:
  "(loads R msg = None \<longrightarrow> frame_text R msg = msg)
   \<and> (loads R msg = Some v \<and> (\<forall>kvs. v \<noteq> JObj kvs) \<longrightarrow> frame_text R msg = msg)
   \<and> (loads R msg = Some (JObj kvs) \<and> map_of kvs (asc ''text'') = None \<longrightarrow>
        frame_text R msg = [])
   \<and> (loads R msg = Some (JObj kvs) \<and> map_of kvs (asc ''text'') = Some (JStr s) \<longrightarrow>
        frame_text R msg = s)
   \<and> (loads R msg = Some (JObj kvs) \<and> map_of kvs (asc ''text'') = Some w
        \<and> (\<forall>s. w \<noteq> JStr s) \<longrightarrow> frame_text R msg = render R w)
   \<and> (status (run R es) = Connected \<and> \<not> stop_event (run R es) \<longrightarrow>
        status (run R (es @ [Frame msg True])) = Connected
        \<and> phase (run R (es @ [Frame msg True])) = Receiving
        \<and> trace (run R (es @ [Frame msg True])) =
            trace (run R es)
              @ (if extract_code R (frame_text R msg) = [] then []
                 else [Copy (extract_code R (frame_text R msg))]))"
proof -
  have a: "frame_text R msg = msg" if "loads R msg = None"
    using that by (simp add: frame_text_def)
  have b: "frame_text R msg = msg" if "loads R msg = Some v" "\<forall>kvs. v \<noteq> JObj kvs"
    using that by (cases v) (simp_all add: frame_text_def)
  have c: "frame_text R msg = []"
    if "loads R msg = Some (JObj kvs)" "map_of kvs (asc ''text'') = None"
    using that by (simp add: frame_text_def)
  have d: "frame_text R msg = s"
    if "loads R msg = Some (JObj kvs)" "map_of kvs (asc ''text'') = Some (JStr s)"
    using that by (simp add: frame_text_def py_str_def)
  have e: "frame_text R msg = render R w"
    if "loads R msg = Some (JObj kvs)" "map_of kvs (asc ''text'') = Some w" "\<forall>s. w \<noteq> JStr s"
    using that by (cases w) (simp_all add: frame_text_def py_str_def)
  have f: "status (run R (es @ [Frame msg True])) = Connected
      \<and> phase (run R (es @ [Frame msg True])) = Receiving
      \<and> trace (run R (es @ [Frame msg True])) =
          trace (run R es)
            @ (if extract_code R (frame_text R msg) = [] then []
               else [Copy (extract_code R (frame_text R msg))])"
    if "status (run R es) = Connected" "\<not> stop_event (run R es)"
  proof -
    have "coherent (run R es)" by (rule coherent_run)
    then have "phase (run R es) = Receiving"
      using that(1) by (cases "phase (run R es)") (auto simp: coherent_def)
    then show ?thesis using that by (simp add: run_snoc step_defs)
  qed
  show ?thesis using a b c d e f by blast
qed

theorem frame_text_by_shape_witness:
  "frame_text py (asc ''login code 4827'') = asc ''login code 4827''
   \<and> frame_text py frame_number = frame_number
   \<and> frame_text py frame_no_text = []
   \<and> frame_text py frame_short = asc ''Security code is 123.''
   \<and> status (run py ([Start, ConnectOk] @ [Frame frame_no_text True])) = Connected
   \<and> trace (run py ([Start, ConnectOk] @ [Frame frame_no_text True])) =
       trace (run py [Start, ConnectOk])"
proof -
  have l1: "loads py (asc ''login code 4827'') = None"
    by (simp add: sample_loads_def frame_short_def frame_no_text_def frame_number_def asc_def)
  have l2: "loads py frame_number = Some (JInt 931018)" "\<forall>kvs. JInt 931018 \<noteq> JObj kvs"
    by (simp_all add: sample_loads_def frame_short_def frame_no_text_def frame_number_def
          asc_def)
  have l3: "loads py frame_no_text = Some (JObj [(asc ''otp'', JStr (asc ''4827''))])"
    "map_of [(asc ''otp'', JStr (asc ''4827''))] (asc ''text'') = None"
    by (simp_all add: sample_loads_def frame_short_def frame_no_text_def asc_def)
  have l4: "loads py frame_short
      = Some (JObj [(asc ''text'', JStr (asc ''Security code is 123.''))])"
    "map_of [(asc ''text'', JStr (asc ''Security code is 123.''))] (asc ''text'')
      = Some (JStr (asc ''Security code is 123.''))"
    by (simp_all add: sample_loads_def)
  have s: "status (run py [Start, ConnectOk]) = Connected"
    "\<not> stop_event (run py [Start, ConnectOk])"
    by (simp_all add: run_def initial_def step_defs)
  have e: "extract_code py [] = []" by (simp add: extract_code_def strip_def)
  note t = frame_text_by_shape
  have w1: "frame_text py (asc ''login code 4827'') = asc ''login code 4827''"
    using t [of py "asc ''login code 4827''"] l1 by blast
  have w2: "frame_text py frame_number = frame_number"
    using t [of py frame_number "JInt 931018"] l2 by blast
  have w3: "frame_text py frame_no_text = []"
    using t [of py frame_no_text _ "[(asc ''otp'', JStr (asc ''4827''))]"] l3 by blast
  have w4: "frame_text py frame_short = asc ''Security code is 123.''"
    using t [of py frame_short _ "[(asc ''text'', JStr (asc ''Security code is 123.''))]"
        "asc ''Security code is 123.''"] l4 by blast
  have w5: "status (run py ([Start, ConnectOk] @ [Frame frame_no_text True])) = Connected
      \<and> trace (run py ([Start, ConnectOk] @ [Frame frame_no_text True])) =
          trace (run py [Start, ConnectOk])"
    using t [of py frame_no_text _ _ _ _ "[Start, ConnectOk]"] s w3 e by simp
  from w1 w2 w3 w4 w5 show ?thesis by blast
qed

text \<open>
  C5 as stated fails: the frame \<^verbatim>\<open>{"otp": "4827"}\<close> is a JSON object without a string
  \<open>text\<close> field, yet the text passed to \<open>extract_code\<close> is empty, not the frame, and
  nothing is written to the clipboard; had the whole frame been the text, \<open>4827\<close> would
  have been extracted from it.
\<close>

theorem frame_without_text_is_dropped:
  "frame_text py frame_no_text = []
   \<and> frame_no_text \<noteq> []
   \<and> copies (run py [Start, ConnectOk, Frame frame_no_text True]) = []
   \<and> extract_code py frame_no_text = asc ''4827''"
proof -
  have a: "frame_no_text \<noteq> []" by (simp add: frame_no_text_def asc_def)
  have b: "extract_code py [] = []" by (simp add: extract_code_def strip_def)
  have c: "copies (run py [Start, ConnectOk, Frame frame_no_text True]) = []"
    by (simp add: run_def initial_def step_defs copies_def frame_no_text_text b)
  have "candidates py frame_no_text = [(9, 4)]"
    by (simp add: frame_no_text_def asc_def candidates_def spans_def isolated_run_def
          digit_run_def py_decimal_low)
  then have "extract_code py frame_no_text = take 4 (drop 9 frame_no_text)"
    using only_candidate [OF py_disjoint] by blast
  then have d: "extract_code py frame_no_text = asc ''4827''"
    by (simp add: frame_no_text_def asc_def)
  from frame_no_text_text a c d show ?thesis by blast
qed

text \<open>
  C6. \<open>extract_code\<close> of a string that is empty or all whitespace is the empty string;
  \<open>extract_code\<close> of an input in which no 4 to 8 digits stand in a row anywhere is the
  trimmed input itself; and so is \<open>extract_code\<close> of an input with no isolated run of 4
  to 8 digits (whitespace characters not being digits).
\<close>

theorem blank_or_no_digits:
  "(list_all (whitespace R) text0 \<longrightarrow> extract_code R text0 = [])
   \<and> (digit_runs R text0 = [] \<longrightarrow> extract_code R text0 = strip R text0)
   \<and> (disjoint_classes R \<and> candidates R text0 = [] \<longrightarrow>
        extract_code R text0 = strip R text0)"
  using extract_code_blank [of R text0] extract_code_plain [of R text0]
    no_candidate [of R text0]
  by blast

theorem blank_or_no_digits_witness:
  "list_all (whitespace py) (asc ''   '')
   \<and> extract_code py (asc ''   '') = []
   \<and> extract_code py [] = []
   \<and> digit_runs py (asc ''Security code is 123.'') = []
   \<and> extract_code py (asc ''Security code is 123.'') = asc ''Security code is 123.''
   \<and> candidates py (asc '' ref 123456789 '') = []
   \<and> extract_code py (asc '' ref 123456789 '') = asc ''ref 123456789''"
proof -
  have a: "list_all (whitespace py) (asc ''   '')" "list_all (whitespace py) []"
    by (simp_all add: asc_def py_whitespace_def)
  have b: "candidates py (asc '' ref 123456789 '') = []"
    by (simp add: asc_def candidates_def spans_def isolated_run_def digit_run_def
          py_decimal_low)
  have c: "strip py (asc '' ref 123456789 '') = asc ''ref 123456789''"
    by (simp add: asc_def strip_def py_whitespace_def)
  have w1: "extract_code py (asc ''   '') = []"
    using blank_or_no_digits [of py "asc ''   ''"] a(1) by blast
  have w2: "extract_code py [] = []"
    using blank_or_no_digits [of py "[]"] a(2) by blast
  have w3: "extract_code py (asc ''Security code is 123.'') = asc ''Security code is 123.''"
    using blank_or_no_digits [of py "asc ''Security code is 123.''"] short_digit_runs
      short_strip by simp
  have w4: "extract_code py (asc '' ref 123456789 '') = asc ''ref 123456789''"
    using blank_or_no_digits [of py "asc '' ref 123456789 ''"] py_disjoint b c by simp
  from a(1) w1 w2 short_digit_runs w3 b w4 show ?thesis by blast
qed

text \<open>
  C7. (1) When the input contains exactly one isolated run of 4 to 8 digits (the run at
  position \<open>i\<close> of length \<open>n\<close>), \<open>extract_code\<close> selects that run and returns exactly
  its digits. (2) When exactly one isolated run of 4 to 8 digits of the trimmed input
  lies within 20 non-digit characters after or before a keyword (the run at position
  \<open>j\<close> of length \<open>m\<close> of the trimmed input), \<open>extract_code\<close> selects that run and
  returns exactly its digits, whatever other isolated runs the input contains.
\<close>

theorem unique_candidate_returned:
  "(disjoint_classes R \<and> candidates R text0 = [(i, n)] \<longrightarrow>
      selected R text0 = Some (i, n) \<and> extract_code R text0 = take n (drop i text0))
   \<and> (near_candidates R (strip R text0) = [(j, m)] \<longrightarrow>
      selected R text0 = Some (lead R text0 + j, m)
      \<and> extract_code R text0 = take m (drop j (strip R text0)))"
  using only_candidate [of R text0 i n] only_near_candidate [of R text0 j m] by blast

theorem unique_candidate_returned_witness:
  "disjoint_classes py
   \<and> candidates py (asc '' Use OTP 4831 to sign in.'') = [(9, 4)]
   \<and> selected py (asc '' Use OTP 4831 to sign in.'') = Some (9, 4)
   \<and> extract_code py (asc '' Use OTP 4831 to sign in.'') = asc ''4831''
   \<and> candidates py (asc ''Order 20260215 was sent to you today. OTP 4831'')
       = [(6, 8), (42, 4)]
   \<and> near_candidates py (strip py (asc ''Order 20260215 was sent to you today. OTP 4831''))
       = [(42, 4)]
   \<and> extract_code py (asc ''Order 20260215 was sent to you today. OTP 4831'') = asc ''4831''"
proof -
  let ?t = "asc ''Order 20260215 was sent to you today. OTP 4831''"
  have a: "candidates py (asc '' Use OTP 4831 to sign in.'') = [(9, 4)]"
    by (simp add: asc_def candidates_def spans_def isolated_run_def digit_run_def
          py_decimal_low)
  have b: "take 4 (drop 9 (asc '' Use OTP 4831 to sign in.'')) = asc ''4831''"
    by (simp add: asc_def)
  have c: "near_candidates py (strip py ?t) = [(42, 4)]"
    by (simp add: sample_strip sample_near)
  have d: "take 4 (drop 42 (strip py ?t)) = asc ''4831''"
    by (simp add: sample_strip) (simp add: asc_def)
  have w1: "selected py (asc '' Use OTP 4831 to sign in.'') = Some (9, 4)
      \<and> extract_code py (asc '' Use OTP 4831 to sign in.'') = asc ''4831''"
    using unique_candidate_returned [of py "asc '' Use OTP 4831 to sign in.''" 9 4]
      py_disjoint a b by simp
  have w2: "extract_code py ?t = asc ''4831''"
    using unique_candidate_returned [of py ?t _ _ 42 4] c d by simp
  from py_disjoint a w1 sample_candidates c w2 show ?thesis by blast
qed

text \<open>
  C8. A run of 4 to 8 digits that is embedded in a longer sequence of digits (a digit
  stands right before it or right after it) is never the run \<open>extract_code\<close> selects,
  where what \<open>extract_code\<close> returns is the selected run when there is one and the
  trimmed input when there is none. No exception is made for an embedded run that
  is the only run of digits in the input.
\<close>

theorem embedded_run_not_selected:
  assumes dis: "disjoint_classes R" and emb: "embedded_run R text0 i n"
  shows "selected R text0 \<noteq> Some (i, n)
       \<and> extract_code R text0 =
           (case selected R text0 of None \<Rightarrow> strip R text0
            | Some (j, m) \<Rightarrow> take m (drop j text0))"
proof -
  have "selected R text0 \<noteq> Some (i, n)"
  proof
    assume "selected R text0 = Some (i, n)"
    then obtain a where a: "i = lead R text0 + a" "isolated_run R (strip R text0) a n"
      using selected_Some by blast
    have "isolated_run R text0 i n" using isolated_run_unstrip [OF dis a(2)] a(1) by simp
    then show False using emb by (auto simp: isolated_run_def embedded_run_def)
  qed
  then show ?thesis using extract_selected [of R text0] by simp
qed

theorem embedded_run_not_selected_witness:
  "disjoint_classes py
   \<and> embedded_run py (asc ''Order 20260215123 code 4827'') 6 8
   \<and> selected py (asc ''Order 20260215123 code 4827'') \<noteq> Some (6, 8)
   \<and> selected py (asc ''Order 20260215123 code 4827'') = Some (23, 4)
   \<and> extract_code py (asc ''Order 20260215123 code 4827'') = asc ''4827''"
proof -
  let ?t = "asc ''Order 20260215123 code 4827''"
  have a: "embedded_run py ?t 6 8"
    by (simp add: asc_def embedded_run_def digit_run_def py_decimal_low)
  have b: "candidates py ?t = [(23, 4)]"
    by (simp add: asc_def candidates_def spans_def isolated_run_def digit_run_def
          py_decimal_low)
  have c: "take 4 (drop 23 ?t) = asc ''4827''" by (simp add: asc_def)
  have d: "selected py ?t = Some (23, 4)" "extract_code py ?t = asc ''4827''"
    using only_candidate [OF py_disjoint b] c by simp_all
  from embedded_run_not_selected [OF py_disjoint a] py_disjoint a d show ?thesis by blast
qed

text \<open>
  C9. When \<open>extract_code\<close> of a text is not a purely numeric string, \<open>extract_code\<close> of
  that result is the result again.
\<close>

theorem extract_code_fixed_point:
  assumes "\<not> purely_numeric R (extract_code R text0)"
  shows "extract_code R (extract_code R text0) = extract_code R text0"
proof -
  have eq: "extract_code R text0 = strip R text0"
    using extract_code_numeric_or_plain [of R text0] assms by blast
  have "purely_numeric R (extract_code R (strip R text0))
      \<or> extract_code R (strip R text0) = strip R (strip R text0)"
    by (rule extract_code_numeric_or_plain)
  moreover have "find_match R (strip R text0) = None"
  proof (cases "find_match R (strip R text0)")
    case None
    then show ?thesis .
  next
    case (Some st)
    then have "captures R (strip R text0) st" by (rule find_match_sound)
    then have "purely_numeric R (group1 (strip R text0) st)" by (rule group1_numeric)
    then show ?thesis using assms extract_code_Some [OF Some] by simp
  qed
  then have "extract_code R (strip R text0) = strip R (strip R text0)"
    by (simp add: extract_code_None strip_idem)
  ultimately show ?thesis using eq by (simp add: strip_idem)
qed

theorem extract_code_fixed_point_witness:
  "\<not> purely_numeric py (extract_code py (asc '' No digits here. ''))
   \<and> extract_code py (asc '' No digits here. '') = asc ''No digits here.''
   \<and> extract_code py (extract_code py (asc '' No digits here. ''))
       = extract_code py (asc '' No digits here. '')"
proof -
  let ?t = "asc '' No digits here. ''"
  have "digit_runs py ?t = []"
    by (simp add: asc_def digit_runs_def spans_def digit_run_def py_decimal_low)
  then have "extract_code py ?t = strip py ?t" by (rule extract_code_plain)
  moreover have "strip py ?t = asc ''No digits here.''"
    by (simp add: asc_def strip_def py_whitespace_def)
  ultimately have a: "extract_code py ?t = asc ''No digits here.''" by simp
  have b: "\<not> purely_numeric py (asc ''No digits here.'')"
    by (simp add: asc_def purely_numeric_def py_decimal_low)
  then have c: "\<not> purely_numeric py (extract_code py ?t)" using a by simp
  from extract_code_fixed_point [OF c] a c show ?thesis by simp
qed

text \<open>
  C10. \<open>extract_code\<close> called with \<open>None\<close>, or with any other falsy object, returns
  the empty string and does not raise; called with a string it returns and does not
  raise; and the receive loop, which always calls it with a string, is not left
  through the extraction step: while connected with the stop signal unset, after any
  frame (the clipboard not failing) the status is still \<open>connected\<close>.
\<close>

theorem extract_code_total:
  "extract_code_dyn R PNone = Inr []
   \<and> (\<not> truthy v \<longrightarrow> extract_code_dyn R v = Inr [])
   \<and> extract_code_dyn R (PStr s) = Inr (extract_code R s)
   \<and> (status (run R es) = Connected \<and> \<not> stop_event (run R es) \<longrightarrow>
        status (run R (es @ [Frame msg True])) = Connected)"
proof -
  have e: "extract_code R [] = []" by (simp add: extract_code_def strip_def)
  have a: "extract_code_dyn R v = Inr []" if "\<not> truthy v" for v
    using that e by (cases v) (simp_all add: extract_code_dyn_def or_empty_def)
  have b: "status (run R (es @ [Frame msg True])) = Connected"
    if "status (run R es) = Connected" "\<not> stop_event (run R es)"
  proof -
    have "coherent (run R es)" by (rule coherent_run)
    then have "phase (run R es) = Receiving"
      using that(1) by (cases "phase (run R es)") (auto simp: coherent_def)
    then show ?thesis using that by (simp add: run_snoc step_defs)
  qed
  show ?thesis using a [of PNone] a [of v] b by simp
qed

theorem extract_code_total_witness:
  "\<not> truthy (POther False)
   \<and> extract_code_dyn py (POther False) = Inr []
   \<and> extract_code_dyn py PNone = Inr []
   \<and> extract_code_dyn py (PStr (asc ''Security code is 123.''))
       = Inr (asc ''Security code is 123.'')
   \<and> status (run py ([Start, ConnectOk] @ [Frame frame_short True])) = Connected"
proof -
  have s: "status (run py [Start, ConnectOk]) = Connected"
    "\<not> stop_event (run py [Start, ConnectOk])"
    by (simp_all add: run_def initial_def step_defs)
  have a: "\<not> truthy (POther False)" by simp
  note t = extract_code_total [of py "POther False" "asc ''Security code is 123.''"
      "[Start, ConnectOk]" frame_short]
  from t a s short_extract show ?thesis by simp
qed

end
